theory Spec2Isabelle
  imports Main "HOL-Library.Sublist" "HOL-Library.Multiset"
begin

section \<open>Python values used by the program\<close>

text \<open>
  A Python \<^verbatim>\<open>str\<close> is modelled as a \<^typ>\<open>string\<close>. Characters outside ASCII are
  written as their UTF-8 bytes; the only ones occurring in the program's literals are the
  bullet U+2022 and the box-drawing bar U+2550.
\<close>

definition bullet :: string where
  "bullet = [CHR 0xE2, CHR 0x80, CHR 0xA2]"

definition dbl_bar :: string where
  "dbl_bar = [CHR 0xE2, CHR 0x95, CHR 0x90]"

text \<open>
  \<^verbatim>\<open>str.lower()\<close> on ASCII text: every upper-case ASCII letter is replaced by its
  lower-case letter; every other byte is kept. Python also lower-cases letters outside
  ASCII (the Kelvin sign U+212A becomes \<open>k\<close>), which this function does not: on such
  text the model's \<open>lower\<close> differs from the program's. The lemmas on section selection
  below are stated for an arbitrary lower-cased string, so what is proved of the selection
  does not depend on which letters \<open>lower\<close> changes; all examples are ASCII.
\<close>

definition char_lower :: "char \<Rightarrow> char" where
  "char_lower c =
     (case map_of (zip ''ABCDEFGHIJKLMNOPQRSTUVWXYZ'' ''abcdefghijklmnopqrstuvwxyz'') c of
        Some l \<Rightarrow> l
      | None \<Rightarrow> c)"

definition lower :: "string \<Rightarrow> string" where
  "lower s = map char_lower s"

text \<open>
  \<^verbatim>\<open>sep.join(parts)\<close>. The substring test \<^verbatim>\<open>kw in s\<close> is \<^term>\<open>sublist kw s\<close>
  (a contiguous run of \<open>s\<close>; the empty string is contained in every string).
\<close>

fun join :: "string \<Rightarrow> string list \<Rightarrow> string" where
  "join sep [] = []"
| "join sep [p] = p"
| "join sep (p # q # ps) = p @ sep @ join sep (q # ps)"

text \<open>
  \<^verbatim>\<open>sorted(xs, key=key, reverse=True)\<close>. Python's sort is stable, and with
  \<^verbatim>\<open>reverse=True\<close> it still is: CPython reverses the list, sorts it stably in ascending
  order of the key and reverses the result. \<^const>\<open>sort_key\<close> is a stable insertion sort.
\<close>

definition sorted_reverse :: "('a \<Rightarrow> nat) \<Rightarrow> 'a list \<Rightarrow> 'a list" where
  "sorted_reverse key xs = rev (sort_key key (rev xs))"


section \<open>The knowledge base (\<^verbatim>\<open>app/knowledge_base.py\<close>)\<close>

record Section =
  sec_id :: string
  title :: string
  keyword_list :: "string list"
  content :: string

definition section_overview_content :: string where
  \<open>section_overview_content =
     ''SkeduleIt is a mobile scheduling and payment solution designed for service\<newline>'' @
     ''providers and customers in Trinidad & Tobago (T&T).\<newline>'' @
     ''\<newline>'' @
     ''Target Users : Service businesses (barbers, hairdressers, aestheticians, etc.)\<newline>'' @
     ''               and their customers.\<newline>'' @
     ''Platforms    : iOS and Android mobile apps, plus a public website.\<newline>'' @
     ''               A web app with full functionality will be available soon.\<newline>'' @
     ''\<newline>'' @
     ''Two Apps:\<newline>'' @
     bullet @ '' Customer App  - Browse businesses, book appointments, manage bookings\<newline>'' @
     bullet @ '' Business App  - Manage profile, services, team, availability, payments''\<close>

definition section_overview :: Section where
  \<open>section_overview = \<lparr>
     sec_id = ''overview'',
     title = ''1. General Product Overview'',
     keyword_list =
      [''skedulelt'', ''skeduleit'', ''what is'', ''about'',
       ''overview'', ''platform'', ''ios'', ''android'',
       ''trinidad'', ''mobile app'', ''website'', ''web app''],
     content = section_overview_content\<rparr>\<close>

definition section_account_signup_content :: string where
  \<open>section_account_signup_content =
     ''=== Customer Accounts ===\<newline>'' @
     ''When you create a customer account, you can immediately:\<newline>'' @
     bullet @ '' Browse businesses\<newline>'' @
     bullet @ '' Schedule appointments\<newline>'' @
     bullet @ '' Manage upcoming appointments\<newline>'' @
     bullet @ '' Receive confirmations and reminders\<newline>'' @
     ''\<newline>'' @
     ''No credit card required. Your account is active immediately upon signup.\<newline>'' @
     ''\<newline>'' @
     ''=== Business Accounts ===\<newline>'' @
     ''When a business signs up, the account enters a brief review process to ensure\<newline>'' @
     ''only legitimate businesses are listed. Once approved, you can:\<newline>'' @
     bullet @ '' Create your business profile\<newline>'' @
     bullet @ '' Add services and pricing\<newline>'' @
     bullet @ '' Add team members (service providers)\<newline>'' @
     bullet @ '' Manage availability\<newline>'' @
     bullet @ '' Handle appointments\<newline>'' @
     bullet @ '' Use payment and reporting tools\<newline>'' @
     ''\<newline>'' @
     ''No credit card required during signup or free trial. Payment details are only\<newline>'' @
     ''needed if you choose to continue with a paid plan after the trial.\<newline>'' @
     ''\<newline>'' @
     ''=== Guest Booking ===\<newline>'' @
     ''Customers can browse and book appointments WITHOUT creating an account, but\<newline>'' @
     ''certain features (like managing bookings and receiving reminders) require signup.''\<close>

definition section_account_signup :: Section where
  \<open>section_account_signup = \<lparr>
     sec_id = ''account_signup'',
     title = ''2. Account Creation & Signup'',
     keyword_list =
      [''sign up'', ''signup'', ''create account'', ''register'',
       ''new account'', ''customer account'', ''business account'', ''credit card'',
       ''payment info'', ''approval'', ''review process'', ''free trial''],
     content = section_account_signup_content\<rparr>\<close>

definition section_business_vs_provider_content :: string where
  \<open>section_business_vs_provider_content =
     ''=== What's the Difference? ===\<newline>'' @
     ''\<newline>'' @
     ''Business:\<newline>'' @
     ''The company or entity listed on SkeduleIt (e.g., 'Trini Cuts Barbershop').\<newline>'' @
     ''\<newline>'' @
     ''Service Provider:\<newline>'' @
     ''An individual who performs the service - whether an employee, team member,\<newline>'' @
     ''sole trader, or independent contractor under that business.\<newline>'' @
     ''\<newline>'' @
     ''Example:\<newline>'' @
     bullet @ '' 'Trini Cuts Barbershop' is the Business\<newline>'' @
     bullet @ '' 'Marcus (Barber)' and 'Jade (Barber)' are Service Providers\<newline>'' @
     ''\<newline>'' @
     ''For Sole Traders:\<newline>'' @
     ''If you work alone, the business and service provider are essentially the same.\<newline>'' @
     ''\<newline>'' @
     ''=== Adding Multiple Service Providers ===\<newline>'' @
     ''Yes! Businesses can add multiple service providers or team members to their\<newline>'' @
     ''account and assign specific services to each person.''\<close>

definition section_business_vs_provider :: Section where
  \<open>section_business_vs_provider = \<lparr>
     sec_id = ''business_vs_provider'',
     title = ''3. Business vs Service Provider'',
     keyword_list =
      [''business'', ''service provider'', ''team member'', ''employee'',
       ''sole trader'', ''independent contractor'', ''difference'', ''multiple providers'',
       ''add team'', ''staff''],
     content = section_business_vs_provider_content\<rparr>\<close>

definition section_customer_faq_content :: string where
  \<open>section_customer_faq_content =
     ''=== How do I book an appointment? ===\<newline>'' @
     ''Open the SkeduleIt Customer App, browse or search for a business, view their\<newline>'' @
     ''services and availability, and select a time slot. You can book with or without\<newline>'' @
     ''creating an account.\<newline>'' @
     ''\<newline>'' @
     ''=== Can I manage my appointments? ===\<newline>'' @
     ''Yes! If you have a customer account, you can view, reschedule, or cancel\<newline>'' @
     ''upcoming appointments directly in the app. You'll also receive confirmations\<newline>'' @
     ''and reminders.\<newline>'' @
     ''\<newline>'' @
     ''=== Is my information private? ===\<newline>'' @
     ''Yes. Your customer information is completely private and never visible to\<newline>'' @
     ''other customers.''\<close>

definition section_customer_faq :: Section where
  \<open>section_customer_faq = \<lparr>
     sec_id = ''customer_faq'',
     title = ''4. Customer FAQ'',
     keyword_list =
      [''book'', ''booking'', ''schedule'', ''appointment'',
       ''make appointment'', ''browse'', ''search'', ''find business'',
       ''cancel appointment'', ''manage booking'', ''confirmation'', ''reminder''],
     content = section_customer_faq_content\<rparr>\<close>

definition section_business_faq_content :: string where
  \<open>section_business_faq_content =
     ''=== How do I manage my business profile? ===\<newline>'' @
     ''Use the Business App to create and edit your profile, add services with pricing,\<newline>'' @
     ''set your availability, and manage your team.\<newline>'' @
     ''\<newline>'' @
     ''=== Can I share my SkeduleIt booking link? ===\<newline>'' @
     ''Yes! You can share your SkeduleIt booking link on Instagram, Facebook, WhatsApp,\<newline>'' @
     ''and other platforms so customers can book services directly.\<newline>'' @
     ''\<newline>'' @
     ''=== Does SkeduleIt handle payments? ===\<newline>'' @
     ''Yes. SkeduleIt includes integrated payment processing tools.\<newline>'' @
     ''\<newline>'' @
     ''=== Can I see business performance and earnings? ===\<newline>'' @
     ''Yes. The Business App includes reporting and analytics tools to track your\<newline>'' @
     ''transactions, popular services, and earnings.''\<close>

definition section_business_faq :: Section where
  \<open>section_business_faq = \<lparr>
     sec_id = ''business_faq'',
     title = ''5. Business FAQ'',
     keyword_list =
      [''manage'', ''schedule'', ''availability'', ''calendar'',
       ''working hours'', ''business profile'', ''services'', ''pricing'',
       ''team'', ''payments'', ''reporting'', ''analytics'',
       ''social media'', ''instagram'', ''facebook'', ''booking link'',
       ''share''],
     content = section_business_faq_content\<rparr>\<close>

definition section_support_help_content :: string where
  \<open>section_support_help_content =
     ''=== Where can I get help? ===\<newline>'' @
     ''Support is available through the in-app 'Help & Support' section in both the\<newline>'' @
     ''Customer and Business apps.\<newline>'' @
     ''\<newline>'' @
     ''Additional resources:\<newline>'' @
     bullet @ '' SkeduleIt website\<newline>'' @
     bullet @ '' Social media platforms\<newline>'' @
     bullet @ '' Onboarding assistance for businesses during early rollout\<newline>'' @
     ''\<newline>'' @
     ''=== Where can I learn more about SkeduleIt? ===\<newline>'' @
     ''Information is available in the app's Help & Support section, on the SkeduleIt\<newline>'' @
     ''website, and across social media platforms.''\<close>

definition section_support_help :: Section where
  \<open>section_support_help = \<lparr>
     sec_id = ''support_help'',
     title = ''6. Help & Support'',
     keyword_list =
      [''help'', ''support'', ''contact'', ''assistance'',
       ''learn more'', ''onboarding'', ''get help'', ''customer service''],
     content = section_support_help_content\<rparr>\<close>

definition section_account_management_content :: string where
  \<open>section_account_management_content =
     ''=== Can I cancel my account? ===\<newline>'' @
     ''Yes. Both customers and businesses can request account closure at any time.\<newline>'' @
     ''A confirmation step is included for security.\<newline>'' @
     ''\<newline>'' @
     ''For businesses: Closing your account will remove your business from SkeduleIt\<newline>'' @
     ''and cancel all future appointments.''\<close>

definition section_account_management :: Section where
  \<open>section_account_management = \<lparr>
     sec_id = ''account_management'',
     title = ''7. Account Management'',
     keyword_list =
      [''cancel account'', ''close account'', ''delete account'', ''deactivate'',
       ''remove account'', ''account closure''],
     content = section_account_management_content\<rparr>\<close>

definition SECTIONS :: "Section list" where
  "SECTIONS =
    [section_overview,
     section_account_signup,
     section_business_vs_provider,
     section_customer_faq,
     section_business_faq,
     section_support_help,
     section_account_management]"

record RelevantContext =
  matched :: "string list"
  full_text :: string

text \<open>The text of one section, \<^verbatim>\<open>f"### {s.title}\n{s.content}"\<close>, and the delimiter.\<close>

definition section_text :: "Section \<Rightarrow> string" where
  "section_text s = ''### '' @ title s @ ''\<newline>'' @ content s"

definition delimiter :: string where
  "delimiter = ''\<newline>\<newline>---\<newline>\<newline>''"

text \<open>
  \<^verbatim>\<open>get_full_knowledge_base\<close> and \<^verbatim>\<open>get_relevant_context\<close> read the module's
  \<^verbatim>\<open>SECTIONS\<close>. Both revisions of the module in the repository hold the same two
  functions over different catalogues, so the catalogue is a parameter of the \<open>_in\<close>
  versions and the functions of the source are their instances at \<^term>\<open>SECTIONS\<close>.
\<close>

definition get_full_knowledge_base_in :: "Section list \<Rightarrow> string" where
  "get_full_knowledge_base_in sections = join delimiter [section_text s. s \<leftarrow> sections]"

definition get_full_knowledge_base :: string where
  "get_full_knowledge_base = get_full_knowledge_base_in SECTIONS"

text \<open>\<^verbatim>\<open>sum(1 for kw in section.keywords if kw in lower)\<close>\<close>

definition hits :: "string \<Rightarrow> Section \<Rightarrow> nat" where
  "hits lower_q section = sum_list [1. kw \<leftarrow> keyword_list section, sublist kw lower_q]"

definition scored :: "Section list \<Rightarrow> string \<Rightarrow> (Section \<times> nat) list" where
  "scored sections lower_q = [(section, hits lower_q section). section \<leftarrow> sections]"

definition matched_secs :: "Section list \<Rightarrow> string \<Rightarrow> Section list" where
  "matched_secs sections lower_q =
     sorted_reverse (hits lower_q) [sec. (sec, h) \<leftarrow> scored sections lower_q, h > 0]"

definition selected_secs :: "Section list \<Rightarrow> string \<Rightarrow> Section list" where
  "selected_secs sections lower_q =
     (let matched = matched_secs sections lower_q
      in if matched \<noteq> [] then matched else sections)"

definition get_relevant_context_in :: "Section list \<Rightarrow> string \<Rightarrow> RelevantContext" where
  "get_relevant_context_in sections query =
     (let lower_q = lower query;
          selected = selected_secs sections lower_q
      in \<lparr>matched = [title s. s \<leftarrow> selected],
          full_text = join delimiter [section_text s. s \<leftarrow> selected]\<rparr>)"

definition get_relevant_context :: "string \<Rightarrow> RelevantContext" where
  "get_relevant_context query = get_relevant_context_in SECTIONS query"


section \<open>Prompt assembly (\<^verbatim>\<open>app/gemini_client.py\<close>)\<close>

text \<open>
  \<^verbatim>\<open>_build_system_prompt\<close> is one concatenation: a fixed header, the full knowledge base,
  a fixed footer. Header and footer are named here; each rule line of the source is 48
  box-drawing bars.
\<close>

definition rule_line :: string where
  "rule_line = concat (replicate 48 dbl_bar)"

definition prompt_header :: string where
  \<open>prompt_header =
     ''You are the official Skedulelt Support Assistant.\<newline>'' @
     ''Skedulelt is a mobile scheduling & payment app for service providers\<newline>'' @
     ''and customers in Trinidad & Tobago.\<newline>'' @
     ''\<newline>'' @
     ''Rules:\<newline>'' @
     ''  '' @ bullet @ '' Answer ONLY based on the knowledge base below.\<newline>'' @
     ''  '' @ bullet @ '' If the question falls outside the knowledge base, say:\<newline>'' @
     ''    "I'm sorry, I don't have information on that. Please contact\<newline>'' @
     ''     our support team for further assistance."\<newline>'' @
     ''  '' @ bullet @ '' Be friendly, concise, and helpful.\<newline>'' @
     ''  '' @ bullet @ '' Do NOT hallucinate features, policies, or prices.\<newline>'' @
     ''  '' @ bullet @ '' Respond in English.\<newline>'' @
     ''\<newline>'' @
     rule_line @ ''\<newline>'' @
     '' SKEDULELT KNOWLEDGE BASE\<newline>'' @
     rule_line @ ''\<newline>''\<close>

definition prompt_footer :: string where
  "prompt_footer = ''\<newline>'' @ rule_line"

definition build_system_prompt :: string where
  "build_system_prompt = prompt_header @ get_full_knowledge_base @ prompt_footer"

definition grounding_ack :: string where
  \<open>grounding_ack =
     ''Got it. I'm the Skedulelt Support Assistant. '' @
     ''I'll answer only based on the knowledge base provided. '' @
     ''How can I help?''\<close>

text \<open>
  The provider's \<^verbatim>\<open>Content(role=..., parts=[Part(text=...)])\<close>, and one turn of the
  caller's history, a dictionary with the keys \<^verbatim>\<open>"role"\<close> and \<^verbatim>\<open>"text"\<close>.
\<close>

datatype Part = Part (part_text: string)

datatype Content = Content (role: string) (parts: "Part list")

record HistoryTurn =
  turn_role :: string
  turn_text :: string

text \<open>The loop \<^verbatim>\<open>for turn in history: ... contents.append(...)\<close>.\<close>

fun append_history :: "Content list \<Rightarrow> HistoryTurn list \<Rightarrow> Content list" where
  "append_history contents [] = contents"
| "append_history contents (turn # rest) =
     (let role = (if turn_role turn = ''assistant'' then ''model'' else ''user'')
      in append_history (contents @ [Content role [Part (turn_text turn)]]) rest)"

definition build_contents :: "HistoryTurn list \<Rightarrow> string \<Rightarrow> Content list" where
  "build_contents history current_message =
     (let contents = [Content ''user'' [Part build_system_prompt],
                      Content ''model'' [Part grounding_ack]];
          contents = append_history contents history
      in contents @ [Content ''user'' [Part current_message]])"

text \<open>The provider turn that the loop appends for one history turn.\<close>

definition provider_turn :: "HistoryTurn \<Rightarrow> Content" where
  "provider_turn t =
     Content (if turn_role t = ''assistant'' then ''model'' else ''user'') [Part (turn_text t)]"


section \<open>The provider and the retry loop\<close>

text \<open>
  The value of an attribute of an exception, as far as the program tells values apart:
  \<^verbatim>\<open>None\<close> (also when the attribute is missing, by the default of \<^verbatim>\<open>getattr\<close>), an
  integer, or any other value (a string, a bound method, \<dots>), of which only its
  truthiness matters, since it is not equal to the integer 429.
\<close>

datatype pyval = PyNone | PyInt int | PyOther bool

definition truthy :: "pyval \<Rightarrow> bool" where
  "truthy v = (case v of PyNone \<Rightarrow> False | PyInt n \<Rightarrow> n \<noteq> 0 | PyOther t \<Rightarrow> t)"

text \<open>
  An exception raised by the provider call, as far as the program looks at it: the
  attributes \<^verbatim>\<open>code\<close> and \<^verbatim>\<open>status_code\<close> and the text \<^verbatim>\<open>str(exc)\<close>.
\<close>

record exn =
  code :: pyval
  status_code :: pyval
  message :: string

text \<open>
  \<^verbatim>\<open>getattr(exc, "code", None) or getattr(exc, "status_code", None)\<close>: Python's
  \<^verbatim>\<open>or\<close> yields its left operand when that is truthy, and its right operand otherwise.
\<close>

definition status_of :: "exn \<Rightarrow> pyval" where
  "status_of exc = (if truthy (code exc) then code exc else status_code exc)"

text \<open>
  One call of \<^verbatim>\<open>_client.models.generate_content\<close> either returns the response text or
  raises an exception (of a subclass of \<^verbatim>\<open>Exception\<close>, which the loop catches). The provider is outside the program: it is a parameter, a function of the request
  and of a state of its own (of any type \<open>'p\<close>), so that it may answer every call
  differently.
\<close>

datatype outcome = Returns string | Raises exn

type_synonym 'p provider = "Content list \<Rightarrow> 'p \<Rightarrow> outcome \<times> 'p"

definition MAX_RETRIES :: nat where
  "MAX_RETRIES = 4"

definition BASE_DELAY_S :: nat where
  "BASE_DELAY_S = 2"

text \<open>
  The body of the loop of \<^verbatim>\<open>_call_with_retry\<close> for one value of \<^verbatim>\<open>attempt\<close>: it
  returns the text, re-raises, or sleeps for the delay and goes on with the next attempt.
\<close>

datatype iteration = Return string | Raise exn | Continue exn nat

definition attempt_call :: "'p provider \<Rightarrow> Content list \<Rightarrow> nat \<Rightarrow> 'p \<Rightarrow> iteration \<times> 'p" where
  "attempt_call generate_content contents attempt p =
     (case generate_content contents p of
        (Returns response_text, p') \<Rightarrow> (Return response_text, p')
      | (Raises exc, p') \<Rightarrow>
          (if status_of exc = PyInt 429 \<and> attempt < MAX_RETRIES
           then (Continue exc (BASE_DELAY_S * 2 ^ attempt), p')
           else (Raise exc, p')))"

text \<open>
  \<^verbatim>\<open>raise last_err\<close> after the loop; with \<^verbatim>\<open>last_err = None\<close> Python raises a
  \<^verbatim>\<open>TypeError\<close> instead.
\<close>

definition type_error :: exn where
  "type_error = \<lparr>code = PyNone, status_code = PyNone,
     message = ''exceptions must derive from BaseException''\<rparr>"

definition raise_last_err :: "exn option \<Rightarrow> exn" where
  "raise_last_err last_err = (case last_err of Some exc \<Rightarrow> exc | None \<Rightarrow> type_error)"

text \<open>
  What a job does, in order: calls of the provider (with the attempt number) and sleeps
  (with the delay in seconds). The log is not part of the program; it records the calls
  and sleeps the program makes.
\<close>

datatype retry_event = Called nat | Slept nat

text \<open>
  The loop \<^verbatim>\<open>for attempt in range(MAX_RETRIES + 1)\<close>, over the attempts still to be made.
  The result is the returned text (\<open>Inr\<close>) or the raised exception (\<open>Inl\<close>).
\<close>

fun retry_loop ::
  "'p provider \<Rightarrow> Content list \<Rightarrow> nat list \<Rightarrow> exn option \<Rightarrow> 'p \<Rightarrow> retry_event list
     \<Rightarrow> (exn + string) \<times> 'p \<times> retry_event list" where
  "retry_loop generate_content contents [] last_err p log =
     (Inl (raise_last_err last_err), p, log)"
| "retry_loop generate_content contents (attempt # rest) last_err p log =
     (case attempt_call generate_content contents attempt p of
        (Return response_text, p') \<Rightarrow> (Inr response_text, p', log @ [Called attempt])
      | (Raise exc, p') \<Rightarrow> (Inl exc, p', log @ [Called attempt])
      | (Continue exc delay, p') \<Rightarrow>
          retry_loop generate_content contents rest (Some exc) p'
            (log @ [Called attempt, Slept delay]))"

definition call_with_retry ::
  "'p provider \<Rightarrow> Content list \<Rightarrow> 'p \<Rightarrow> (exn + string) \<times> 'p \<times> retry_event list" where
  "call_with_retry generate_content contents p =
     retry_loop generate_content contents [0..<MAX_RETRIES + 1] None p []"

text \<open>The outcomes of the next \<open>n\<close> calls of the provider for a request.\<close>

fun responses :: "'p provider \<Rightarrow> Content list \<Rightarrow> 'p \<Rightarrow> nat \<Rightarrow> outcome list" where
  "responses generate_content contents p 0 = []"
| "responses generate_content contents p (Suc n) =
     (case generate_content contents p of
        (r, p') \<Rightarrow> r # responses generate_content contents p' n)"

text \<open>
  Notions used to state the retry policy: the result that an outcome gives the job; whether
  an outcome ends the loop at a given attempt; the attempts made and the delays slept
  according to a log; and the log of \<open>n\<close> rate-limited attempts starting with attempt \<open>a\<close>.
\<close>

definition result_of :: "outcome \<Rightarrow> exn + string" where
  "result_of r = (case r of Returns response_text \<Rightarrow> Inr response_text | Raises exc \<Rightarrow> Inl exc)"

definition ends_loop :: "nat \<Rightarrow> outcome \<Rightarrow> bool" where
  "ends_loop attempt r =
     (case r of
        Returns response_text \<Rightarrow> True
      | Raises exc \<Rightarrow> \<not> (status_of exc = PyInt 429 \<and> attempt < MAX_RETRIES))"

definition attempts_made :: "retry_event list \<Rightarrow> nat list" where
  "attempts_made log = [a. Called a \<leftarrow> log]"

definition delays :: "retry_event list \<Rightarrow> nat list" where
  "delays log = [d. Slept d \<leftarrow> log]"

definition backoff_log :: "nat \<Rightarrow> nat \<Rightarrow> retry_event list" where
  "backoff_log a n = concat (map (\<lambda>i. [Called i, Slept (BASE_DELAY_S * 2 ^ i)]) [a..<a + n])"


section \<open>The queue and its worker\<close>

text \<open>
  The module's state: the queue of \<^verbatim>\<open>(future, contents)\<close> tuples and the worker task.
  A future is identified by its number in order of creation; \<open>futures\<close> holds the state of
  every future created so far: pending, done with the result or exception set on it, or
  cancelled. A future is cancelled when the caller awaiting it is cancelled (the client went
  away, or a timeout around the call expired). \<open>trace\<close> is not part of the program: it
  records what has happened, in order.
\<close>

datatype future = Pending | Done "exn + string" | Cancelled

text \<open>
  The worker task: not created yet (\<^verbatim>\<open>_worker_task is None\<close>), suspended in
  \<^verbatim>\<open>q.get()\<close>, inside \<^verbatim>\<open>_call_with_retry\<close> for a job (with the attempts still to be
  made and \<^verbatim>\<open>last_err\<close>), or ended by an exception (\<^verbatim>\<open>_worker_task.done()\<close>).
\<close>

datatype worker =
    NotStarted
  | Waiting
  | Executing nat "Content list" "nat list" "exn option"
  | Dead

datatype event =
    Submitted nat
  | Dequeued nat
  | Invoked nat nat
  | Sleeping nat nat
  | Resolved nat "exn + string"
  | Abandoned nat
  | Crashed nat

record 'p dispatcher =
  queue :: "(nat \<times> Content list) list"
  worker_task :: worker
  futures :: "future list"
  provider_state :: 'p
  trace :: "event list"

definition init :: "'p \<Rightarrow> 'p dispatcher" where
  "init p = \<lparr>queue = [], worker_task = NotStarted, futures = [], provider_state = p, trace = []\<rparr>"

text \<open>
  The end of \<^verbatim>\<open>chat\<close> up to \<^verbatim>\<open>q.put\<close>: \<^verbatim>\<open>_ensure_worker\<close> starts a worker when
  there is none or when the last one has ended, a future is created and the tuple is put at
  the tail of the unbounded queue. Nothing in it suspends, so it is one step.
\<close>

definition enqueue :: "Content list \<Rightarrow> 'p dispatcher \<Rightarrow> nat \<times> 'p dispatcher" where
  "enqueue contents s =
     (let future = length (futures s)
      in (future,
          s\<lparr>worker_task :=
              (if worker_task s = NotStarted \<or> worker_task s = Dead then Waiting
               else worker_task s),
            futures := futures s @ [Pending],
            queue := queue s @ [(future, contents)],
            trace := trace s @ [Submitted future]\<rparr>))"

text \<open>
  The caller of a job is cancelled while it awaits the future (\<^verbatim>\<open>answer = await future\<close>):
  the pending future becomes cancelled. The job stays where it is, in the queue or with the
  worker. On a future that is done already the cancellation changes nothing.
\<close>

definition cancel :: "nat \<Rightarrow> 'p dispatcher \<Rightarrow> 'p dispatcher" where
  "cancel future s =
     (if future < length (futures s) \<and> futures s ! future = Pending
      then s\<lparr>futures := (futures s)[future := Cancelled],
             trace := trace s @ [Abandoned future]\<rparr>
      else s)"

text \<open>
  \<^verbatim>\<open>future.set_result(answer)\<close> or \<^verbatim>\<open>future.set_exception(exc)\<close>, then
  \<^verbatim>\<open>q.task_done()\<close> and back to \<^verbatim>\<open>q.get()\<close>. On a future that is not pending both
  raise \<^verbatim>\<open>InvalidStateError\<close>: raised by \<^verbatim>\<open>set_result\<close> it is caught by
  \<^verbatim>\<open>except Exception\<close>, whose \<^verbatim>\<open>set_exception\<close> raises it again; after
  \<^verbatim>\<open>q.task_done()\<close> it leaves the loop and ends the worker.
\<close>

definition resolve :: "nat \<Rightarrow> exn + string \<Rightarrow> 'p dispatcher \<Rightarrow> 'p dispatcher" where
  "resolve future r s =
     (if future < length (futures s) \<and> futures s ! future = Pending
      then s\<lparr>futures := (futures s)[future := Done r],
             worker_task := Waiting,
             trace := trace s @ [Resolved future r]\<rparr>
      else s\<lparr>worker_task := Dead,
             trace := trace s @ [Crashed future]\<rparr>)"

text \<open>
  The worker \<^verbatim>\<open>_queue_worker\<close> from one suspension to the next. Waiting at
  \<^verbatim>\<open>q.get()\<close> it takes the head of the queue, if there is one, and enters
  \<^verbatim>\<open>_call_with_retry\<close>; inside it makes one pass of the retry loop: it calls the provider
  and either resolves the future or sleeps and stays with the same job. A worker that has
  not been started or has ended takes no step.
\<close>

definition worker_step :: "'p provider \<Rightarrow> 'p dispatcher \<Rightarrow> 'p dispatcher" where
  "worker_step generate_content s =
     (case worker_task s of
        NotStarted \<Rightarrow> s
      | Dead \<Rightarrow> s
      | Waiting \<Rightarrow>
          (case queue s of
             [] \<Rightarrow> s
           | (future, contents) # rest \<Rightarrow>
               s\<lparr>queue := rest,
                 worker_task := Executing future contents [0..<MAX_RETRIES + 1] None,
                 trace := trace s @ [Dequeued future]\<rparr>)
      | Executing future contents attempts last_err \<Rightarrow>
          (case attempts of
             [] \<Rightarrow> resolve future (Inl (raise_last_err last_err)) s
           | attempt # rest \<Rightarrow>
               (case attempt_call generate_content contents attempt (provider_state s) of
                  (Return response_text, p') \<Rightarrow>
                    resolve future (Inr response_text)
                      (s\<lparr>provider_state := p', trace := trace s @ [Invoked future attempt]\<rparr>)
                | (Raise exc, p') \<Rightarrow>
                    resolve future (Inl exc)
                      (s\<lparr>provider_state := p', trace := trace s @ [Invoked future attempt]\<rparr>)
                | (Continue exc delay, p') \<Rightarrow>
                    s\<lparr>provider_state := p',
                      worker_task := Executing future contents rest (Some exc),
                      trace := trace s @ [Invoked future attempt, Sleeping future delay]\<rparr>)))"

text \<open>
  A run of the system is any interleaving of submissions by callers, cancellations of
  callers and steps of the worker.
\<close>

datatype action = Submit "Content list" | Tick | Cancel nat

fun step :: "'p provider \<Rightarrow> 'p dispatcher \<Rightarrow> action \<Rightarrow> 'p dispatcher" where
  "step generate_content s (Submit contents) = snd (enqueue contents s)"
| "step generate_content s Tick = worker_step generate_content s"
| "step generate_content s (Cancel future) = cancel future s"

definition run :: "'p provider \<Rightarrow> 'p dispatcher \<Rightarrow> action list \<Rightarrow> 'p dispatcher" where
  "run generate_content s actions = foldl (step generate_content) s actions"

text \<open>The events of a job in the system's trace.\<close>

fun job_event :: "nat \<Rightarrow> retry_event \<Rightarrow> event" where
  "job_event future (Called attempt) = Invoked future attempt"
| "job_event future (Slept delay) = Sleeping future delay"


text \<open>
  Reading a trace: the jobs submitted and taken from the queue, each in the order of the
  trace; the job that an event begins to work on (taking it from the queue, or calling the
  provider for it); the job on which an event ends the worker's work (its future resolved,
  or found not pending); and the jobs whose work has ended, in the order of the trace.
\<close>

definition submitted :: "event list \<Rightarrow> nat list" where
  "submitted tr = [f. Submitted f \<leftarrow> tr]"

definition dequeued :: "event list \<Rightarrow> nat list" where
  "dequeued tr = [f. Dequeued f \<leftarrow> tr]"

fun begins :: "event \<Rightarrow> nat option" where
  "begins (Dequeued f) = Some f"
| "begins (Invoked f attempt) = Some f"
| "begins (Submitted f) = None"
| "begins (Sleeping f delay) = None"
| "begins (Resolved f r) = None"
| "begins (Abandoned f) = None"
| "begins (Crashed f) = None"

fun ends :: "event \<Rightarrow> nat list" where
  "ends (Resolved f r) = [f]"
| "ends (Crashed f) = [f]"
| "ends (Submitted f) = []"
| "ends (Dequeued f) = []"
| "ends (Invoked f attempt) = []"
| "ends (Sleeping f delay) = []"
| "ends (Abandoned f) = []"

definition finished :: "event list \<Rightarrow> nat list" where
  "finished tr = concat (map ends tr)"

text \<open>
  A trace is in order when, at every event that begins work on a job \<open>f\<close>, the jobs whose
  work has ended so far are exactly the jobs \<open>0, \<dots>, f - 1\<close>, ended in this order. The
  invariant of the dispatcher relates its state to its trace.
\<close>

definition in_order :: "event list \<Rightarrow> bool" where
  "in_order tr =
     (\<forall>n < length tr. \<forall>f. begins (tr ! n) = Some f \<longrightarrow> finished (take n tr) = [0..<f])"

definition fifo_inv :: "'p dispatcher \<Rightarrow> bool" where
  "fifo_inv s =
     (let tr = trace s; N = length (futures s); d = length (dequeued tr)
      in submitted tr = [0..<N]
       \<and> d \<le> N
       \<and> dequeued tr = [0..<d]
       \<and> map fst (queue s) = [d..<N]
       \<and> (case worker_task s of
            Executing f c attempts last_err \<Rightarrow> Suc f = d \<and> finished tr = [0..<f]
          | _ \<Rightarrow> finished tr = [0..<d])
       \<and> in_order tr
       \<and> (\<forall>f r. Resolved f r \<in> set tr \<longrightarrow> f < N \<and> futures s ! f = Done r)
       \<and> (\<forall>f < N. futures s ! f = Cancelled \<longrightarrow> Abandoned f \<in> set tr)
       \<and> (\<forall>f < N. \<forall>r. futures s ! f = Done r \<longrightarrow> Resolved f r \<in> set tr)
       \<and> (\<forall>f. Crashed f \<in> set tr \<longrightarrow> Abandoned f \<in> set tr))"


section \<open>The public function \<^verbatim>\<open>chat\<close>\<close>

record ChatResult =
  answer :: string
  matched_sections :: "string list"

text \<open>
  \<^verbatim>\<open>chat\<close> selects the context, builds the contents, puts them on the queue and awaits
  the future. \<open>await_job contents\<close> stands for the last two: it is what the worker sets on
  the job's future, the answer (\<open>Inr\<close>) or the exception (\<open>Inl\<close>), which \<^verbatim>\<open>await\<close>
  re-raises in the caller; \<open>None\<close> when the future is never resolved.
\<close>

definition chat ::
  "HistoryTurn list \<Rightarrow> string \<Rightarrow> (Content list \<Rightarrow> (exn + string) option)
     \<Rightarrow> (exn + ChatResult) option" where
  "chat history current_message await_job =
     (let ctx = get_relevant_context current_message;
          contents = build_contents history current_message
      in case await_job contents of
           None \<Rightarrow> None
         | Some (Inl exc) \<Rightarrow> Some (Inl exc)
         | Some (Inr response_text) \<Rightarrow>
             Some (Inr \<lparr>answer = response_text, matched_sections = matched ctx\<rparr>))"


section \<open>Classification of failures at the HTTP boundary (\<^verbatim>\<open>app/main.py\<close>)\<close>

datatype failure_class =
    RateLimit
  | Configuration
  | ServiceUnavailable
  | ContentBlocked
  | InternalServerError

text \<open>\<^verbatim>\<open>any(x in error_msg.lower() for x in [...])\<close>\<close>

definition any_in :: "string list \<Rightarrow> string \<Rightarrow> bool" where
  "any_in xs error_msg = list_ex (\<lambda>x. sublist x (lower error_msg)) xs"

definition classify :: "string \<Rightarrow> failure_class" where
  "classify error_msg =
     (if any_in [''429'', ''quota'', ''rate limit''] error_msg then RateLimit
      else if any_in [''api key'', ''authentication'', ''unauthorized''] error_msg then Configuration
      else if any_in [''overloaded'', ''unavailable'', ''timeout''] error_msg then ServiceUnavailable
      else if any_in [''safety'', ''blocked'', ''violation''] error_msg then ContentBlocked
      else InternalServerError)"


section \<open>Provider stubs and failures used in examples\<close>

text \<open>
  A stub provider that answers its \<open>n\<close>-th call with the \<open>n\<close>-th outcome of a script and
  every later call with a default outcome; its state counts the calls made.
\<close>

definition scripted :: "outcome list \<Rightarrow> outcome \<Rightarrow> nat provider" where
  "scripted script otherwise contents n =
     ((if n < length script then script ! n else otherwise), Suc n)"

definition too_many_requests :: exn where
  "too_many_requests = \<lparr>code = PyInt 429, status_code = PyNone,
     message = ''429 RESOURCE_EXHAUSTED. Resource has been exhausted.''\<rparr>"

definition unauthenticated :: exn where
  "unauthenticated = \<lparr>code = PyInt 401, status_code = PyNone,
     message = ''401 UNAUTHENTICATED. API key not valid.''\<rparr>"

definition rate_limited_no_status :: exn where
  "rate_limited_no_status = \<lparr>code = PyNone, status_code = PyNone,
     message = ''429 Too Many Requests: quota exceeded, please retry later.''\<rparr>"


section \<open>Properties of the context selector\<close>

lemma kept_is_filter:
  "[sec. (sec, h) \<leftarrow> scored sections lw, h > 0] = filter (\<lambda>s. 0 < hits lw s) sections"
  by (induction sections) (simp_all add: scored_def)

lemma matched_secs_eq:
  "matched_secs sections lw =
     sorted_reverse (hits lw) (filter (\<lambda>s. 0 < hits lw s) sections)"
  by (simp add: matched_secs_def kept_is_filter)

lemma mset_sorted_reverse: "mset (sorted_reverse key xs) = mset xs"
  by (simp add: sorted_reverse_def)

lemma sorted_reverse_descending:
  "sorted_wrt (\<lambda>a b. key b \<le> key a) (sorted_reverse key xs)"
proof -
  have "sorted (map key (sort_key key (rev xs)))"
    by (rule sorted_sort_key)
  then have "sorted_wrt (\<lambda>a b. key a \<le> key b) (sort_key key (rev xs))"
    by (simp add: sorted_map)
  then show ?thesis
    by (simp add: sorted_reverse_def sorted_wrt_rev)
qed

lemma sorted_reverse_stable:
  "filter (\<lambda>x. key x = k) (sorted_reverse key xs) = filter (\<lambda>x. key x = k) xs"
proof -
  have "filter (\<lambda>x. key x = k) (sort_key key (rev xs)) = filter (\<lambda>x. key x = k) (rev xs)"
    by (rule sort_key_stable)
  then have "rev (filter (\<lambda>x. key x = k) (sort_key key (rev xs))) = filter (\<lambda>x. key x = k) xs"
    by (simp add: rev_filter)
  then show ?thesis
    by (simp add: sorted_reverse_def rev_filter)
qed

lemma set_matched_secs:
  "set (matched_secs sections lw) = {s \<in> set sections. 0 < hits lw s}"
  by (simp add: matched_secs_eq sorted_reverse_def)

lemma matched_secs_Nil_iff:
  "matched_secs sections lw = [] \<longleftrightarrow> (\<forall>s \<in> set sections. hits lw s = 0)"
proof -
  have "matched_secs sections lw = [] \<longleftrightarrow> set (matched_secs sections lw) = {}"
    by simp
  then show ?thesis
    unfolding set_matched_secs by auto
qed

lemma hits_matched_pos:
  "s \<in> set (matched_secs sections lw) \<Longrightarrow> 0 < hits lw s"
  by (simp add: set_matched_secs)

lemma selected_secs_descending:
  "sorted_wrt (\<lambda>a b. hits lw b \<le> hits lw a) (selected_secs sections lw)"
proof (cases "matched_secs sections lw = []")
  case True
  then have zero: "\<forall>s \<in> set sections. hits lw s = 0"
    by (simp add: matched_secs_Nil_iff)
  have "sorted_wrt (\<lambda>a b. hits lw b \<le> hits lw a) sections"
    using zero by (simp add: sorted_wrt_iff_nth_less)
  with True show ?thesis
    by (simp add: selected_secs_def)
next
  case False
  then show ?thesis
    by (simp add: selected_secs_def matched_secs_eq sorted_reverse_descending)
qed


lemma selected_secs_fallback:
  "\<forall>s \<in> set sections. hits lw s = 0 \<Longrightarrow> selected_secs sections lw = sections"
  by (simp add: selected_secs_def matched_secs_Nil_iff)

lemma selected_secs_matched:
  "filter (\<lambda>s. 0 < hits lw s) sections \<noteq> [] \<Longrightarrow>
   selected_secs sections lw = matched_secs sections lw"
  by (auto simp: selected_secs_def matched_secs_Nil_iff filter_empty_conv)

lemma selected_secs_nonempty:
  "sections \<noteq> [] \<Longrightarrow> selected_secs sections lw \<noteq> []"
  by (simp add: selected_secs_def Let_def)

lemma matched_titles:
  "matched (get_relevant_context_in sections query) =
     map title (selected_secs sections (lower query))"
  by (simp add: get_relevant_context_in_def Let_def)

lemma full_text_selected:
  "full_text (get_relevant_context_in sections query) =
     join delimiter (map section_text (selected_secs sections (lower query)))"
  by (simp add: get_relevant_context_in_def Let_def)

lemma SECTIONS_nonempty: "SECTIONS \<noteq> []"
  by (simp add: SECTIONS_def)

lemma empty_query_no_hits: "\<forall>s \<in> set SECTIONS. hits (lower []) s = 0"
  by code_simp


subsection \<open>Claim C4\<close>

text \<open>
  C4. For every query, the sections that \<open>get_relevant_context\<close> keeps (the local
  \<open>matched\<close>) are exactly the catalogue's sections with at least one keyword hit, each as
  often as the catalogue lists it; they are ordered by hit count, largest first; and for
  every hit count the kept sections with that count stand in their catalogue order (the sort
  is stable). Whenever some section has a hit, the returned titles are the titles of these
  sections in this order. In every returned list of titles, fallback included, a section is
  never preceded by one with strictly fewer hits. The statement holds for every catalogue.
\<close>

theorem selection_keeps_hits_sorted_stable:
  "let lw = lower query;
       kept = filter (\<lambda>s. 0 < hits lw s) sections;
       m = matched_secs sections lw;
       sel = selected_secs sections lw
   in mset m = mset kept
    \<and> sorted_wrt (\<lambda>a b. hits lw b \<le> hits lw a) m
    \<and> (\<forall>k. filter (\<lambda>s. hits lw s = k) m = filter (\<lambda>s. hits lw s = k) kept)
    \<and> (kept \<noteq> [] \<longrightarrow> matched (get_relevant_context_in sections query) = map title m)
    \<and> matched (get_relevant_context_in sections query) = map title sel
    \<and> (\<forall>i j. i < j \<and> j < length sel \<longrightarrow> hits lw (sel ! j) \<le> hits lw (sel ! i))"
proof -
  define lw where "lw = lower query"
  define kept where "kept = filter (\<lambda>s. 0 < hits lw s) sections"
  define m where "m = matched_secs sections lw"
  define sel where "sel = selected_secs sections lw"
  have m_eq: "m = sorted_reverse (hits lw) kept"
    by (simp add: m_def kept_def matched_secs_eq)
  have c1: "mset m = mset kept"
    by (simp add: m_eq mset_sorted_reverse)
  have c2: "sorted_wrt (\<lambda>a b. hits lw b \<le> hits lw a) m"
    unfolding m_eq by (rule sorted_reverse_descending)
  have c3: "\<forall>k. filter (\<lambda>s. hits lw s = k) m = filter (\<lambda>s. hits lw s = k) kept"
    unfolding m_eq by (simp add: sorted_reverse_stable)
  have c5: "matched (get_relevant_context_in sections query) = map title sel"
    by (simp add: matched_titles sel_def lw_def)
  have c4: "kept \<noteq> [] \<longrightarrow> matched (get_relevant_context_in sections query) = map title m"
    using selected_secs_matched [of lw sections]
    by (simp add: c5 sel_def m_def kept_def)
  have "sorted_wrt (\<lambda>a b. hits lw b \<le> hits lw a) sel"
    unfolding sel_def by (rule selected_secs_descending)
  then have c6: "\<forall>i j. i < j \<and> j < length sel \<longrightarrow> hits lw (sel ! j) \<le> hits lw (sel ! i)"
    by (simp add: sorted_wrt_iff_nth_less)
  from c1 c2 c3 c4 c5 c6 show ?thesis
    unfolding Let_def lw_def [symmetric] kept_def [symmetric] m_def [symmetric] sel_def [symmetric]
    by blast
qed

theorem selection_keeps_hits_sorted_stable_witness:
  "filter (\<lambda>s. 0 < hits (lower ''Business help and SUPPORT'') s) SECTIONS \<noteq> []
   \<and> matched (get_relevant_context_in SECTIONS ''Business help and SUPPORT'') =
       map title (matched_secs SECTIONS (lower ''Business help and SUPPORT''))
   \<and> matched (get_relevant_context_in SECTIONS ''Business help and SUPPORT'') =
       [''6. Help & Support'', ''3. Business vs Service Provider'']
   \<and> (0::nat) < 1
   \<and> 1 < length (selected_secs SECTIONS (lower ''Business help and SUPPORT''))
   \<and> hits (lower ''Business help and SUPPORT'')
         (selected_secs SECTIONS (lower ''Business help and SUPPORT'') ! 1)
       \<le> hits (lower ''Business help and SUPPORT'')
         (selected_secs SECTIONS (lower ''Business help and SUPPORT'') ! 0)"
proof -
  have kept: "filter (\<lambda>s. 0 < hits (lower ''Business help and SUPPORT'') s) SECTIONS \<noteq> []"
    by code_simp
  have len: "1 < length (selected_secs SECTIONS (lower ''Business help and SUPPORT''))"
    by code_simp
  have titles: "matched (get_relevant_context_in SECTIONS ''Business help and SUPPORT'') =
      [''6. Help & Support'', ''3. Business vs Service Provider'']"
    by code_simp
  have lt: "(0::nat) < 1"
    by simp
  note facts = selection_keeps_hits_sorted_stable [of "''Business help and SUPPORT''" SECTIONS, unfolded Let_def]
  from facts kept have same: "matched (get_relevant_context_in SECTIONS ''Business help and SUPPORT'') =
      map title (matched_secs SECTIONS (lower ''Business help and SUPPORT''))"
    by blast
  from facts lt len have ord: "hits (lower ''Business help and SUPPORT'') (selected_secs SECTIONS (lower ''Business help and SUPPORT'') ! 1)
      \<le> hits (lower ''Business help and SUPPORT'') (selected_secs SECTIONS (lower ''Business help and SUPPORT'') ! 0)"
    by blast
  from kept same titles lt len ord show ?thesis
    by blast
qed


subsection \<open>Claim C5\<close>

text \<open>
  C5. For every query none of whose sections has a keyword hit, \<open>get_relevant_context\<close>
  returns all sections of the catalogue in catalogue order: the titles are the catalogue's
  titles, as many as the catalogue has sections, and the text is the full knowledge base.
  The empty query is such a query. The function is total, and over the program's
  catalogue (over any non-empty catalogue) the list of titles it returns is never empty.
\<close>

theorem no_hits_selects_whole_catalogue:
  "((\<forall>s \<in> set sections. hits (lower query) s = 0) \<longrightarrow>
       matched (get_relevant_context_in sections query) = map title sections
     \<and> length (matched (get_relevant_context_in sections query)) = length sections
     \<and> full_text (get_relevant_context_in sections query) = get_full_knowledge_base_in sections)
   \<and> (\<forall>s \<in> set SECTIONS. hits (lower '''') s = 0)
   \<and> matched (get_relevant_context '''') = map title SECTIONS
   \<and> full_text (get_relevant_context '''') = get_full_knowledge_base
   \<and> (sections \<noteq> [] \<longrightarrow> matched (get_relevant_context_in sections query) \<noteq> [])
   \<and> matched (get_relevant_context query) \<noteq> []"
proof -
  have fallback: "matched (get_relevant_context_in secs q) = map title secs
      \<and> length (matched (get_relevant_context_in secs q)) = length secs
      \<and> full_text (get_relevant_context_in secs q) = get_full_knowledge_base_in secs"
    if "\<forall>s \<in> set secs. hits (lower q) s = 0" for secs q
    using selected_secs_fallback [OF that]
    by (simp add: matched_titles full_text_selected get_full_knowledge_base_in_def)
  have nonempty: "matched (get_relevant_context_in secs q) \<noteq> []" if "secs \<noteq> []" for secs q
    using selected_secs_nonempty [OF that, of "lower q"] by (simp add: matched_titles)
  have empty: "matched (get_relevant_context '''') = map title SECTIONS
      \<and> full_text (get_relevant_context '''') = get_full_knowledge_base"
    using fallback [OF empty_query_no_hits]
    by (simp add: get_relevant_context_def get_full_knowledge_base_def)
  show ?thesis
    using fallback [of sections query] nonempty [of sections query]
      nonempty [OF SECTIONS_nonempty, of query] empty empty_query_no_hits
    by (simp add: get_relevant_context_def)
qed

theorem no_hits_selects_whole_catalogue_witness:
  "map (hits (lower ''Good morning!'')) SECTIONS = [0, 0, 0, 0, 0, 0, 0]
   \<and> matched (get_relevant_context_in SECTIONS ''Good morning!'') = map title SECTIONS
   \<and> length (matched (get_relevant_context_in SECTIONS ''Good morning!'')) = 7
   \<and> SECTIONS \<noteq> []
   \<and> matched (get_relevant_context_in SECTIONS ''Good morning!'') \<noteq> []"
proof -
  have scores: "map (hits (lower ''Good morning!'')) SECTIONS = [0, 0, 0, 0, 0, 0, 0]"
    by code_simp
  have zero: "\<forall>s \<in> set SECTIONS. hits (lower ''Good morning!'') s = 0"
    by code_simp
  have len: "length SECTIONS = 7"
    by (simp add: SECTIONS_def)
  from no_hits_selects_whole_catalogue [of SECTIONS "''Good morning!''"] zero len SECTIONS_nonempty
  have "matched (get_relevant_context_in SECTIONS ''Good morning!'') = map title SECTIONS
      \<and> length (matched (get_relevant_context_in SECTIONS ''Good morning!'')) = 7
      \<and> matched (get_relevant_context_in SECTIONS ''Good morning!'') \<noteq> []"
    by simp
  with scores SECTIONS_nonempty show ?thesis
    by blast
qed


section \<open>Properties of prompt assembly and of \<open>chat\<close>\<close>

lemma append_history_eq:
  "append_history contents history = contents @ map provider_turn history"
  by (induction history arbitrary: contents) (simp_all add: provider_turn_def)

lemma build_contents_eq:
  "build_contents history current_message =
     [Content ''user'' [Part build_system_prompt], Content ''model'' [Part grounding_ack]]
     @ map provider_turn history
     @ [Content ''user'' [Part current_message]]"
  by (simp add: build_contents_def append_history_eq)


subsection \<open>Claim C6\<close>

text \<open>
  C6. For every history and current message the contents sent to the provider are, in
  order: a \<open>user\<close> turn with the system prompt (header, full knowledge base, footer), a
  \<open>model\<close> turn with the fixed acknowledgment, one turn for each history turn in order,
  whose role is \<open>model\<close> for \<open>assistant\<close> and \<open>user\<close> for \<open>user\<close> and whose text is the
  turn's text, and a last \<open>user\<close> turn with the current message. Their number is
  2 + the length of the history + 1.
\<close>

theorem contents_are_system_ack_history_message:
  "build_contents history current_message =
     [Content ''user'' [Part (prompt_header @ get_full_knowledge_base @ prompt_footer)],
      Content ''model'' [Part grounding_ack]]
     @ map (\<lambda>t. Content (if turn_role t = ''assistant'' then ''model'' else ''user'')
                     [Part (turn_text t)]) history
     @ [Content ''user'' [Part current_message]]
   \<and> length (build_contents history current_message) = 2 + length history + 1
   \<and> (\<forall>i < length history.
         parts (build_contents history current_message ! (2 + i)) = [Part (turn_text (history ! i))]
       \<and> (turn_role (history ! i) = ''assistant'' \<longrightarrow>
            role (build_contents history current_message ! (2 + i)) = ''model'')
       \<and> (turn_role (history ! i) = ''user'' \<longrightarrow>
            role (build_contents history current_message ! (2 + i)) = ''user''))
   \<and> build_contents history current_message ! (2 + length history) =
       Content ''user'' [Part current_message]"
proof -
  have closed: "build_contents history current_message =
     [Content ''user'' [Part (prompt_header @ get_full_knowledge_base @ prompt_footer)],
      Content ''model'' [Part grounding_ack]]
     @ map provider_turn history
     @ [Content ''user'' [Part current_message]]"
    by (simp add: build_contents_eq build_system_prompt_def)
  have turn: "build_contents history current_message ! (2 + i) = provider_turn (history ! i)"
    if "i < length history" for i
    using that by (simp add: closed nth_append)
  have last: "build_contents history current_message ! (2 + length history) =
      Content ''user'' [Part current_message]"
    by (simp add: closed nth_append)
  have turns: "\<forall>i < length history.
         parts (build_contents history current_message ! (2 + i)) = [Part (turn_text (history ! i))]
       \<and> (turn_role (history ! i) = ''assistant'' \<longrightarrow>
            role (build_contents history current_message ! (2 + i)) = ''model'')
       \<and> (turn_role (history ! i) = ''user'' \<longrightarrow>
            role (build_contents history current_message ! (2 + i)) = ''user'')"
  proof (intro allI impI)
    fix i
    assume "i < length history"
    from turn [OF this] show "parts (build_contents history current_message ! (2 + i)) =
           [Part (turn_text (history ! i))]
       \<and> (turn_role (history ! i) = ''assistant'' \<longrightarrow>
            role (build_contents history current_message ! (2 + i)) = ''model'')
       \<and> (turn_role (history ! i) = ''user'' \<longrightarrow>
            role (build_contents history current_message ! (2 + i)) = ''user'')"
      by (simp add: provider_turn_def)
  qed
  have len: "length (build_contents history current_message) = 2 + length history + 1"
    by (simp add: closed)
  have "provider_turn =
      (\<lambda>t. Content (if turn_role t = ''assistant'' then ''model'' else ''user'')
                     [Part (turn_text t)])"
    by (rule ext) (simp add: provider_turn_def)
  with closed have form: "build_contents history current_message =
     [Content ''user'' [Part (prompt_header @ get_full_knowledge_base @ prompt_footer)],
      Content ''model'' [Part grounding_ack]]
     @ map (\<lambda>t. Content (if turn_role t = ''assistant'' then ''model'' else ''user'')
                     [Part (turn_text t)]) history
     @ [Content ''user'' [Part current_message]]"
    by simp
  from form len turns last show ?thesis
    by blast
qed

theorem contents_are_system_ack_history_message_witness:
  "build_contents
     [\<lparr>turn_role = ''user'', turn_text = ''Hello''\<rparr>,
      \<lparr>turn_role = ''assistant'', turn_text = ''Hi, how can I help?''\<rparr>] ''hi'' =
     [Content ''user'' [Part build_system_prompt],
      Content ''model'' [Part grounding_ack],
      Content ''user'' [Part ''Hello''],
      Content ''model'' [Part ''Hi, how can I help?''],
      Content ''user'' [Part ''hi'']]
   \<and> length (build_contents [] ''hi'') = 3"
proof -
  have "build_system_prompt = prompt_header @ get_full_knowledge_base @ prompt_footer"
    by (simp add: build_system_prompt_def)
  then show ?thesis
    using contents_are_system_ack_history_message
        [of "[\<lparr>turn_role = ''user'', turn_text = ''Hello''\<rparr>,
              \<lparr>turn_role = ''assistant'', turn_text = ''Hi, how can I help?''\<rparr>]" "''hi''"]
      contents_are_system_ack_history_message [of "[]" "''hi''"]
    by simp
qed


subsection \<open>Claim C7\<close>

text \<open>
  C7 as stated fails: the selector's text is not what the provider receives. For the
  message \<open>help\<close> the selector chooses the single section \<open>6. Help & Support\<close>, and the
  system turn of the request is not the prompt around that section's text.
\<close>

theorem selector_text_not_attached_counterexample:
  "matched (get_relevant_context ''help'') = [''6. Help & Support'']
   \<and> part_text (hd (parts (hd (build_contents [] ''help''))))
       \<noteq> prompt_header @ full_text (get_relevant_context ''help'') @ prompt_footer"
proof -
  have titles: "matched (get_relevant_context ''help'') = [''6. Help & Support'']"
    by code_simp
  have differ: "get_full_knowledge_base \<noteq> full_text (get_relevant_context ''help'')"
    by code_simp
  have "part_text (hd (parts (hd (build_contents [] ''help'')))) =
      prompt_header @ get_full_knowledge_base @ prompt_footer"
    by (simp add: build_contents_eq build_system_prompt_def)
  with differ titles show ?thesis
    by simp
qed

text \<open>
  C7, amended. For every chat request the reference material in the request sent to the
  provider is the full knowledge base, all sections of the catalogue in catalogue order,
  whatever the message and the history: the first turn is the \<open>user\<close> turn with header,
  full knowledge base and footer. The selector's output for the message only becomes the
  \<open>matched_sections\<close> of the result; its text equals the attached material when no
  section has a hit.
\<close>

theorem full_knowledge_base_always_attached:
  "hd (build_contents history current_message) =
     Content ''user'' [Part (prompt_header @ get_full_knowledge_base @ prompt_footer)]
   \<and> get_full_knowledge_base = join delimiter (map section_text SECTIONS)
   \<and> ((\<forall>s \<in> set SECTIONS. hits (lower current_message) s = 0) \<longrightarrow>
        full_text (get_relevant_context current_message) = get_full_knowledge_base)
   \<and> (await_job (build_contents history current_message) = Some (Inr response_text) \<longrightarrow>
        chat history current_message await_job =
          Some (Inr \<lparr>answer = response_text,
                     matched_sections = matched (get_relevant_context current_message)\<rparr>))"
proof -
  have "full_text (get_relevant_context current_message) = get_full_knowledge_base"
    if "\<forall>s \<in> set SECTIONS. hits (lower current_message) s = 0"
    using selected_secs_fallback [OF that]
    by (simp add: get_relevant_context_def full_text_selected get_full_knowledge_base_def
        get_full_knowledge_base_in_def)
  then show ?thesis
    by (simp add: build_contents_eq build_system_prompt_def get_full_knowledge_base_def
        get_full_knowledge_base_in_def chat_def)
qed

theorem full_knowledge_base_always_attached_witness:
  "map (hits (lower ''Good morning!'')) SECTIONS = [0, 0, 0, 0, 0, 0, 0]
   \<and> full_text (get_relevant_context ''Good morning!'') = get_full_knowledge_base
   \<and> chat [] ''help'' (\<lambda>contents. Some (Inr ''See the Help section.'')) =
       Some (Inr \<lparr>answer = ''See the Help section.'',
                  matched_sections = [''6. Help & Support'']\<rparr>)"
proof -
  have scores: "map (hits (lower ''Good morning!'')) SECTIONS = [0, 0, 0, 0, 0, 0, 0]"
    by code_simp
  have zero: "\<forall>s \<in> set SECTIONS. hits (lower ''Good morning!'') s = 0"
    by code_simp
  have titles: "matched (get_relevant_context ''help'') = [''6. Help & Support'']"
    by code_simp
  from full_knowledge_base_always_attached [of "[]" "''Good morning!''"] zero
  have a: "full_text (get_relevant_context ''Good morning!'') = get_full_knowledge_base"
    by blast
  from full_knowledge_base_always_attached
    [of "[]" "''help''" "\<lambda>contents. Some (Inr ''See the Help section.'')" "''See the Help section.''"]
  have b: "chat [] ''help'' (\<lambda>contents. Some (Inr ''See the Help section.'')) =
       Some (Inr \<lparr>answer = ''See the Help section.'',
                  matched_sections = matched (get_relevant_context ''help'')\<rparr>)"
    by blast
  from scores a b titles show ?thesis
    by simp
qed


subsection \<open>Claim C10\<close>

text \<open>
  C10. Two calls of \<open>chat\<close> with the same current message, whatever their histories and
  whatever the provider answers to each, return the same \<open>matched_sections\<close> whenever both
  return a result: the list is the selector's list for the current message.
\<close>

theorem matched_sections_independent_of_history:
  "chat history1 current_message await1 = Some (Inr result1) \<Longrightarrow>
   chat history2 current_message await2 = Some (Inr result2) \<Longrightarrow>
   matched_sections result1 = matched_sections result2
   \<and> matched_sections result1 = matched (get_relevant_context current_message)"
  by (auto simp: chat_def Let_def split: option.splits sum.splits)

theorem matched_sections_independent_of_history_witness:
  "chat [] ''help'' (\<lambda>contents. Some (Inr ''Yes.'')) =
     Some (Inr \<lparr>answer = ''Yes.'', matched_sections = [''6. Help & Support'']\<rparr>)
   \<and> chat [\<lparr>turn_role = ''user'', turn_text = ''How do I book?''\<rparr>,
            \<lparr>turn_role = ''assistant'', turn_text = ''Open the app.''\<rparr>] ''help''
        (\<lambda>contents. Some (Inr ''No.'')) =
     Some (Inr \<lparr>answer = ''No.'', matched_sections = [''6. Help & Support'']\<rparr>)
   \<and> matched_sections \<lparr>answer = ''Yes.'', matched_sections = [''6. Help & Support'']\<rparr> =
     matched_sections \<lparr>answer = ''No.'', matched_sections = [''6. Help & Support'']\<rparr>"
proof -
  have titles: "matched (get_relevant_context ''help'') = [''6. Help & Support'']"
    by code_simp
  have r1: "chat [] ''help'' (\<lambda>contents. Some (Inr ''Yes.'')) =
     Some (Inr \<lparr>answer = ''Yes.'', matched_sections = [''6. Help & Support'']\<rparr>)"
    by (simp add: chat_def titles)
  have r2: "chat [\<lparr>turn_role = ''user'', turn_text = ''How do I book?''\<rparr>,
            \<lparr>turn_role = ''assistant'', turn_text = ''Open the app.''\<rparr>] ''help''
        (\<lambda>contents. Some (Inr ''No.'')) =
     Some (Inr \<lparr>answer = ''No.'', matched_sections = [''6. Help & Support'']\<rparr>)"
    by (simp add: chat_def titles)
  from matched_sections_independent_of_history [OF r1 r2] r1 r2 show ?thesis
    by blast
qed


section \<open>Properties of the retry loop\<close>

lemma backoff_log_0: "backoff_log a 0 = []"
  by (simp add: backoff_log_def)

lemma backoff_log_Suc:
  "backoff_log a (Suc n) = Called a # Slept (BASE_DELAY_S * 2 ^ a) # backoff_log (Suc a) n"
  by (simp add: backoff_log_def upt_conv_Cons)

lemma attempts_made_backoff:
  "attempts_made (backoff_log a n @ [Called (a + n)]) = [a..<Suc (a + n)]"
proof (induction n arbitrary: a)
  case 0
  then show ?case by (simp add: backoff_log_0 attempts_made_def)
next
  case (Suc n)
  have "attempts_made (backoff_log a (Suc n) @ [Called (a + Suc n)]) =
      a # attempts_made (backoff_log (Suc a) n @ [Called (Suc a + n)])"
    by (simp add: backoff_log_Suc attempts_made_def)
  also have "\<dots> = a # [Suc a..<Suc (Suc a + n)]"
    by (simp only: Suc.IH)
  also have "\<dots> = [a..<Suc (a + Suc n)]"
    by (simp add: upt_conv_Cons)
  finally show ?case .
qed

lemma delays_backoff:
  "delays (backoff_log a n @ [Called m]) = map (\<lambda>i. BASE_DELAY_S * 2 ^ i) [a..<a + n]"
proof (induction n arbitrary: a)
  case 0
  then show ?case by (simp add: backoff_log_0 delays_def)
next
  case (Suc n)
  have "delays (backoff_log a (Suc n) @ [Called m]) =
      BASE_DELAY_S * 2 ^ a # delays (backoff_log (Suc a) n @ [Called m])"
    by (simp add: backoff_log_Suc delays_def)
  also have "\<dots> = BASE_DELAY_S * 2 ^ a # map (\<lambda>i. BASE_DELAY_S * 2 ^ i) [Suc a..<Suc a + n]"
    by (simp only: Suc.IH)
  also have "\<dots> = map (\<lambda>i. BASE_DELAY_S * 2 ^ i) [a..<a + Suc n]"
    by (simp add: upt_conv_Cons)
  finally show ?case .
qed

lemma attempts_from:
  "a \<le> MAX_RETRIES \<Longrightarrow> [a..<MAX_RETRIES + 1] = a # [Suc a..<MAX_RETRIES + 1]"
  by (simp add: upt_conv_Cons)

lemma retry_loop_run:
  "responses g c p (Suc (length excs)) = map Raises excs @ [final] \<Longrightarrow>
   \<forall>e \<in> set excs. status_of e = PyInt 429 \<Longrightarrow>
   a + length excs \<le> MAX_RETRIES \<Longrightarrow>
   ends_loop (a + length excs) final \<Longrightarrow>
   \<exists>p'. retry_loop g c [a..<MAX_RETRIES + 1] last_err p log =
     (result_of final, p', log @ backoff_log a (length excs) @ [Called (a + length excs)])"
proof (induction excs arbitrary: a p last_err log)
  case Nil
  define rest where "rest = [Suc a..<MAX_RETRIES + 1]"
  from Nil.prems(1) obtain p1 where g: "g c p = (final, p1)"
    by (auto split: prod.splits)
  from Nil.prems(3) have "a \<le> MAX_RETRIES"
    by simp
  then have unfold: "[a..<MAX_RETRIES + 1] = a # rest"
    unfolding rest_def by (rule attempts_from)
  from Nil.prems(4) g have "retry_loop g c (a # rest) last_err p log =
      (result_of final, p1, log @ [Called a])"
    by (cases final) (auto simp: attempt_call_def ends_loop_def result_of_def)
  then show ?case
    unfolding unfold by (simp add: backoff_log_0)
next
  case (Cons e excs)
  define rest where "rest = [Suc a..<MAX_RETRIES + 1]"
  from Cons.prems(1) obtain p1 where g: "g c p = (Raises e, p1)"
      and more: "responses g c p1 (Suc (length excs)) = map Raises excs @ [final]"
    by (auto split: prod.splits)
  from Cons.prems(2) have e: "status_of e = PyInt 429"
      and others: "\<forall>e \<in> set excs. status_of e = PyInt 429"
    by simp_all
  from Cons.prems(3) have a: "a < MAX_RETRIES" and bound: "Suc a + length excs \<le> MAX_RETRIES"
    by simp_all
  from Cons.prems(4) have final: "ends_loop (Suc a + length excs) final"
    by simp
  from a have "a \<le> MAX_RETRIES"
    by simp
  then have unfold: "[a..<MAX_RETRIES + 1] = a # rest"
    unfolding rest_def by (rule attempts_from)
  from Cons.IH [OF more others bound final]
  obtain p' where ih: "retry_loop g c rest (Some e) p1
        (log @ [Called a, Slept (BASE_DELAY_S * 2 ^ a)]) =
      (result_of final, p',
       (log @ [Called a, Slept (BASE_DELAY_S * 2 ^ a)]) @ backoff_log (Suc a) (length excs)
         @ [Called (Suc a + length excs)])"
    unfolding rest_def by blast
  have "retry_loop g c (a # rest) last_err p log =
      retry_loop g c rest (Some e) p1 (log @ [Called a, Slept (BASE_DELAY_S * 2 ^ a)])"
    using g e a by (simp add: attempt_call_def)
  with ih have "retry_loop g c (a # rest) last_err p log =
      (result_of final, p',
       log @ backoff_log a (length (e # excs)) @ [Called (a + length (e # excs))])"
    by (simp add: backoff_log_Suc)
  then show ?case
    unfolding unfold by blast
qed

lemma call_with_retry_run:
  "responses g c p (Suc (length excs)) = map Raises excs @ [final] \<Longrightarrow>
   \<forall>e \<in> set excs. status_of e = PyInt 429 \<Longrightarrow>
   length excs \<le> MAX_RETRIES \<Longrightarrow>
   ends_loop (length excs) final \<Longrightarrow>
   \<exists>p'. call_with_retry g c p =
     (result_of final, p', backoff_log 0 (length excs) @ [Called (length excs)])"
  using retry_loop_run [of g c p excs final 0 None "[]"]
  by (simp add: call_with_retry_def)

lemma retry_loop_log_prefix:
  "retry_loop g c as last_err p (l1 @ l2) =
     (case retry_loop g c as last_err p l2 of (r, p', l) \<Rightarrow> (r, p', l1 @ l))"
  by (induction as arbitrary: last_err p l2) (simp_all split: prod.splits iteration.splits)

text \<open>
  The worker inside \<open>call_with_retry\<close> for a job takes as many steps as the loop makes
  passes, leaves the same log in the trace, and then resolves the job's pending future; on
  a future that is not pending it ends.
\<close>

lemma worker_finishes_job:
  "worker_task s = Executing f c as last_err \<Longrightarrow>
   retry_loop g c as last_err (provider_state s) [] = (r, p', log) \<Longrightarrow>
   \<exists>n. 0 < n \<and> n \<le> Suc (length as) \<and>
     (worker_step g ^^ n) s =
       resolve f r (s\<lparr>provider_state := p', trace := trace s @ map (job_event f) log\<rparr>)"
proof (induction as arbitrary: s last_err log)
  case Nil
  then have "(worker_step g ^^ 1) s =
       resolve f r (s\<lparr>provider_state := p', trace := trace s @ map (job_event f) log\<rparr>)"
    by (auto simp: worker_step_def)
  then show ?case
    by (intro exI [of _ 1]) simp
next
  case (Cons a as)
  obtain it p1 where call: "attempt_call g c a (provider_state s) = (it, p1)"
    by (cases "attempt_call g c a (provider_state s)")
  show ?case
  proof (cases it)
    case (Return t)
    with Cons.prems call have "(worker_step g ^^ 1) s =
       resolve f r (s\<lparr>provider_state := p', trace := trace s @ map (job_event f) log\<rparr>)"
      by (auto simp: worker_step_def)
    then show ?thesis
      by (intro exI [of _ 1]) simp
  next
    case (Raise e)
    with Cons.prems call have "(worker_step g ^^ 1) s =
       resolve f r (s\<lparr>provider_state := p', trace := trace s @ map (job_event f) log\<rparr>)"
      by (auto simp: worker_step_def)
    then show ?thesis
      by (intro exI [of _ 1]) simp
  next
    case (Continue e d)
    define s1 where "s1 = s\<lparr>provider_state := p1,
        worker_task := Executing f c as (Some e),
        trace := trace s @ [Invoked f a, Sleeping f d]\<rparr>"
    from Cons.prems(1) call Continue have first: "worker_step g s = s1"
      by (simp add: worker_step_def s1_def)
    from Cons.prems(2) call Continue
    have "retry_loop g c as (Some e) p1 ([Called a, Slept d] @ []) = (r, p', log)"
      by simp
    then obtain log1 where later: "retry_loop g c as (Some e) p1 [] = (r, p', log1)"
        and log: "log = [Called a, Slept d] @ log1"
      unfolding retry_loop_log_prefix [of g c as "Some e" p1 "[Called a, Slept d]" "[]"]
      by (auto split: prod.splits)
    have "worker_task s1 = Executing f c as (Some e)" and "provider_state s1 = p1"
      by (simp_all add: s1_def)
    with Cons.IH [of s1 "Some e" log1] later
    obtain n where n: "0 < n" "n \<le> Suc (length as)"
        and run: "(worker_step g ^^ n) s1 =
          resolve f r (s1\<lparr>provider_state := p', trace := trace s1 @ map (job_event f) log1\<rparr>)"
      by auto
    have "(worker_step g ^^ Suc n) s = (worker_step g ^^ n) s1"
      by (simp add: funpow_swap1 first)
    also have "\<dots> =
       resolve f r (s\<lparr>provider_state := p', trace := trace s @ map (job_event f) log\<rparr>)"
      unfolding run by (simp add: s1_def log resolve_def)
    finally show ?thesis
      using n by (intro exI [of _ "Suc n"]) simp
  qed
qed

text \<open>
  From the worker waiting at the head of the queue: it takes the job, runs the whole of
  \<open>call_with_retry\<close> on it and resolves its pending future, before it takes another.
\<close>

lemma worker_takes_and_finishes_job:
  assumes "worker_task s = Waiting" and "queue s = (f, c) # rest"
    and "call_with_retry g c (provider_state s) = (r, p', log)"
    and "f < length (futures s)" and "futures s ! f = Pending"
  shows "\<exists>n. 1 < n \<and> n \<le> MAX_RETRIES + 3 \<and>
     (worker_step g ^^ n) s =
       s\<lparr>queue := rest,
         provider_state := p',
         futures := (futures s)[f := Done r],
         worker_task := Waiting,
         trace := trace s @ [Dequeued f] @ map (job_event f) log @ [Resolved f r]\<rparr>"
proof -
  define s1 where "s1 = s\<lparr>queue := rest,
      worker_task := Executing f c [0..<MAX_RETRIES + 1] None,
      trace := trace s @ [Dequeued f]\<rparr>"
  from assms(1,2) have first: "worker_step g s = s1"
    by (simp add: worker_step_def s1_def)
  have "worker_task s1 = Executing f c [0..<MAX_RETRIES + 1] None"
    by (simp add: s1_def)
  moreover from assms(3)
  have "retry_loop g c [0..<MAX_RETRIES + 1] None (provider_state s1) [] = (r, p', log)"
    by (simp add: call_with_retry_def s1_def)
  ultimately obtain n where n: "0 < n" "n \<le> Suc (length [0..<MAX_RETRIES + 1])"
      and run: "(worker_step g ^^ n) s1 =
        resolve f r (s1\<lparr>provider_state := p', trace := trace s1 @ map (job_event f) log\<rparr>)"
    using worker_finishes_job [of s1 f c "[0..<MAX_RETRIES + 1]" None g r p' log]
    by blast
  have "(worker_step g ^^ Suc n) s = (worker_step g ^^ n) s1"
    by (simp add: funpow_swap1 first)
  also have "\<dots> =
       s\<lparr>queue := rest,
         provider_state := p',
         futures := (futures s)[f := Done r],
         worker_task := Waiting,
         trace := trace s @ [Dequeued f] @ map (job_event f) log @ [Resolved f r]\<rparr>"
    unfolding run using assms(4,5) by (simp add: s1_def resolve_def)
  finally show ?thesis
    using n by (intro exI [of _ "Suc n"]) simp
qed

lemma call_with_retry_not_retried:
  assumes "g c p = (Raises exc, p')" and "status_of exc \<noteq> PyInt 429"
  shows "call_with_retry g c p = (Inl exc, p', [Called 0])"
proof -
  define later where "later = [Suc 0..<MAX_RETRIES + 1]"
  have attempts: "[0..<MAX_RETRIES + 1] = 0 # later"
    unfolding later_def by (rule attempts_from) simp
  from assms show ?thesis
    unfolding call_with_retry_def attempts by (simp add: attempt_call_def)
qed

lemma worker_two_steps_not_retried:
  assumes "g c (provider_state s) = (Raises exc, p')" and "status_of exc \<noteq> PyInt 429"
    and "worker_task s = Waiting" and "queue s = (f, c) # rest"
  shows "(worker_step g ^^ 2) s =
     resolve f (Inl exc)
       (s\<lparr>queue := rest,
          provider_state := p',
          trace := trace s @ [Dequeued f, Invoked f 0]\<rparr>)"
proof -
  define later where "later = [Suc 0..<MAX_RETRIES + 1]"
  have attempts: "[0..<MAX_RETRIES + 1] = 0 # later"
    unfolding later_def by (rule attempts_from) simp
  define s1 where "s1 = s\<lparr>queue := rest,
      worker_task := Executing f c (0 # later) None,
      trace := trace s @ [Dequeued f]\<rparr>"
  from assms(3,4) have first: "worker_step g s = s1"
    unfolding worker_step_def attempts by (simp add: s1_def)
  from assms(1,2) have "worker_step g s1 =
     resolve f (Inl exc)
       (s\<lparr>queue := rest,
          provider_state := p',
          trace := trace s @ [Dequeued f, Invoked f 0]\<rparr>)"
    by (simp add: worker_step_def s1_def attempt_call_def resolve_def)
  with first show ?thesis
    by (simp add: numeral_2_eq_2)
qed

subsection \<open>Failures with status 429\<close>

text \<open>
  What the loop does when the failures carry the status 429 in their \<open>code\<close> or
  \<open>status_code\<close> attribute. After \<open>K \<le> 4\<close> such failures and a success, the text is
  returned after the attempts \<open>0, \<dots>, K\<close>, with a sleep of \<open>BASE_DELAY_S * 2 ^ attempt\<close>
  seconds after the failed attempt number \<open>attempt\<close>, and the worker resolves the job's
  pending future with the text.
\<close>

lemma status_429_k_times_then_succeeds:
  assumes "K \<le> 4" and "length excs = K" and "\<forall>e \<in> set excs. status_of e = PyInt 429"
    and "responses generate_content contents p (Suc K) = map Raises excs @ [Returns response_text]"
  shows "\<exists>p' log.
      call_with_retry generate_content contents p = (Inr response_text, p', log)
    \<and> log = concat (map (\<lambda>attempt. [Called attempt, Slept (BASE_DELAY_S * 2 ^ attempt)]) [0..<K])
            @ [Called K]
    \<and> attempts_made log = [0..<K + 1]
    \<and> length (attempts_made log) = K + 1
    \<and> delays log = map (\<lambda>attempt. 2 * 2 ^ attempt) [0..<K]
    \<and> (\<forall>a. Suc a < K \<longrightarrow>
          delays log ! Suc a = 2 * (delays log ! a) \<and> delays log ! a < delays log ! Suc a)
    \<and> (\<forall>s f rest. worker_task s = Waiting \<and> queue s = (f, contents) # rest
          \<and> provider_state s = p \<and> f < length (futures s) \<and> futures s ! f = Pending \<longrightarrow>
          (\<exists>n. (worker_step generate_content ^^ n) s =
             s\<lparr>queue := rest,
               provider_state := p',
               futures := (futures s)[f := Done (Inr response_text)],
               worker_task := Waiting,
               trace := trace s @ [Dequeued f] @ map (job_event f) log
                          @ [Resolved f (Inr response_text)]\<rparr>))"
proof -
  from assms(1,2) have bound: "length excs \<le> MAX_RETRIES"
    by (simp add: MAX_RETRIES_def)
  have ends: "ends_loop (length excs) (Returns response_text)"
    by (simp add: ends_loop_def)
  from assms(2,4)
  have "responses generate_content contents p (Suc (length excs)) =
      map Raises excs @ [Returns response_text]"
    by simp
  from call_with_retry_run [OF this assms(3) bound ends]
  obtain p' where run: "call_with_retry generate_content contents p =
      (Inr response_text, p', backoff_log 0 K @ [Called K])"
    using assms(2) by (auto simp: result_of_def)
  define log where "log = backoff_log 0 K @ [Called K]"
  have form: "log = concat (map (\<lambda>attempt. [Called attempt, Slept (BASE_DELAY_S * 2 ^ attempt)]) [0..<K])
            @ [Called K]"
    by (simp add: log_def backoff_log_def)
  have made: "attempts_made log = [0..<K + 1]"
    using attempts_made_backoff [of 0 K] by (simp add: log_def)
  have slept: "delays log = map (\<lambda>attempt. 2 * 2 ^ attempt) [0..<K]"
    using delays_backoff [of 0 K K] by (simp add: log_def BASE_DELAY_S_def)
  have doubling: "\<forall>a. Suc a < K \<longrightarrow>
      delays log ! Suc a = 2 * (delays log ! a) \<and> delays log ! a < delays log ! Suc a"
    by (simp add: slept)
  have system: "\<forall>s f rest. worker_task s = Waiting \<and> queue s = (f, contents) # rest
          \<and> provider_state s = p \<and> f < length (futures s) \<and> futures s ! f = Pending \<longrightarrow>
          (\<exists>n. (worker_step generate_content ^^ n) s =
             s\<lparr>queue := rest,
               provider_state := p',
               futures := (futures s)[f := Done (Inr response_text)],
               worker_task := Waiting,
               trace := trace s @ [Dequeued f] @ map (job_event f) log
                          @ [Resolved f (Inr response_text)]\<rparr>)"
  proof (intro allI impI)
    fix s :: "'a dispatcher" and f rest
    assume s: "worker_task s = Waiting \<and> queue s = (f, contents) # rest
        \<and> provider_state s = p \<and> f < length (futures s) \<and> futures s ! f = Pending"
    with run have "call_with_retry generate_content contents (provider_state s) =
        (Inr response_text, p', log)"
      by (simp add: log_def)
    from worker_takes_and_finishes_job [OF _ _ this, of f rest] s
    show "\<exists>n. (worker_step generate_content ^^ n) s =
             s\<lparr>queue := rest,
               provider_state := p',
               futures := (futures s)[f := Done (Inr response_text)],
               worker_task := Waiting,
               trace := trace s @ [Dequeued f] @ map (job_event f) log
                          @ [Resolved f (Inr response_text)]\<rparr>"
      by blast
  qed
  have len: "length (attempts_made log) = K + 1"
    by (simp add: made)
  from run have "call_with_retry generate_content contents p = (Inr response_text, p', log)"
    by (simp add: log_def)
  with form made len slept doubling system show ?thesis
    by blast
qed

text \<open>
  After five such failures the exception of the fifth call is raised, after the attempts
  \<open>0, \<dots>, 4\<close> and the delays 2, 4, 8 and 16 seconds, and the worker sets it on the job's
  pending future.
\<close>

lemma status_429_always_fails_after_five_attempts:
  assumes "length excs = 5" and "\<forall>e \<in> set excs. status_of e = PyInt 429"
    and "responses generate_content contents p 5 = map Raises excs"
  shows "\<exists>p' log.
      call_with_retry generate_content contents p = (Inl (last excs), p', log)
    \<and> attempts_made log = [0, 1, 2, 3, 4]
    \<and> length (attempts_made log) = 5
    \<and> delays log = [2, 4, 8, 16]
    \<and> (\<forall>s f rest. worker_task s = Waiting \<and> queue s = (f, contents) # rest
          \<and> provider_state s = p \<and> f < length (futures s) \<and> futures s ! f = Pending \<longrightarrow>
          (\<exists>n. (worker_step generate_content ^^ n) s =
             s\<lparr>queue := rest,
               provider_state := p',
               futures := (futures s)[f := Done (Inl (last excs))],
               worker_task := Waiting,
               trace := trace s @ [Dequeued f] @ map (job_event f) log
                          @ [Resolved f (Inl (last excs))]\<rparr>))"
proof -
  define before where "before = butlast excs"
  from assms(1) have split: "excs = before @ [last excs]"
    unfolding before_def by (cases excs rule: rev_cases) simp_all
  with assms(1) have len: "length before = 4"
    by (simp add: before_def)
  from assms(2) split have rate: "\<forall>e \<in> set before. status_of e = PyInt 429"
    by (metis Un_iff set_append)
  have bound: "length before \<le> MAX_RETRIES"
    by (simp add: len MAX_RETRIES_def)
  have ends: "ends_loop (length before) (Raises (last excs))"
    by (simp add: ends_loop_def len MAX_RETRIES_def)
  have "map Raises excs = map Raises before @ [Raises (last excs)]"
    by (subst split) simp
  with assms(3) have "responses generate_content contents p (Suc (length before)) =
      map Raises before @ [Raises (last excs)]"
    by (simp add: len eval_nat_numeral)
  from call_with_retry_run [OF this rate bound ends]
  obtain p' where run: "call_with_retry generate_content contents p =
      (Inl (last excs), p', backoff_log 0 4 @ [Called 4])"
    by (auto simp: result_of_def len)
  define log where "log = backoff_log 0 4 @ [Called 4]"
  have "[0..<Suc (0 + 4)] = [0, 1, 2, 3, 4::nat]"
    by code_simp
  with attempts_made_backoff [of 0 4] have made: "attempts_made log = [0, 1, 2, 3, 4]"
    by (simp add: log_def)
  have "map (\<lambda>i. BASE_DELAY_S * 2 ^ i) [0..<0 + 4] = [2, 4, 8, 16]"
    by code_simp
  with delays_backoff [of 0 4 4] have slept: "delays log = [2, 4, 8, 16]"
    by (simp add: log_def)
  have system: "\<forall>s f rest. worker_task s = Waiting \<and> queue s = (f, contents) # rest
          \<and> provider_state s = p \<and> f < length (futures s) \<and> futures s ! f = Pending \<longrightarrow>
          (\<exists>n. (worker_step generate_content ^^ n) s =
             s\<lparr>queue := rest,
               provider_state := p',
               futures := (futures s)[f := Done (Inl (last excs))],
               worker_task := Waiting,
               trace := trace s @ [Dequeued f] @ map (job_event f) log
                          @ [Resolved f (Inl (last excs))]\<rparr>)"
  proof (intro allI impI)
    fix s :: "'a dispatcher" and f rest
    assume s: "worker_task s = Waiting \<and> queue s = (f, contents) # rest
        \<and> provider_state s = p \<and> f < length (futures s) \<and> futures s ! f = Pending"
    with run have "call_with_retry generate_content contents (provider_state s) =
        (Inl (last excs), p', log)"
      by (simp add: log_def)
    from worker_takes_and_finishes_job [OF _ _ this, of f rest] s
    show "\<exists>n. (worker_step generate_content ^^ n) s =
             s\<lparr>queue := rest,
               provider_state := p',
               futures := (futures s)[f := Done (Inl (last excs))],
               worker_task := Waiting,
               trace := trace s @ [Dequeued f] @ map (job_event f) log
                          @ [Resolved f (Inl (last excs))]\<rparr>"
      by blast
  qed
  have count: "length (attempts_made log) = 5"
    by (simp add: made)
  from run have "call_with_retry generate_content contents p = (Inl (last excs), p', log)"
    by (simp add: log_def)
  with made count slept system show ?thesis
    by blast
qed


section \<open>The retry policy and the failure classes\<close>

subsection \<open>Claim C2\<close>

text \<open>
  C2 fails on the code. A rate-limit failure that shows only in the text of the exception
  (no \<open>code\<close> or \<open>status_code\<close> attribute) is not retried: when the provider fails once
  with such a failure and would then succeed, the job does not succeed after two calls; it
  fails after the single first call, without a sleep, and the worker sets the exception on
  the job's future. The same provider script with the status 429 in the \<open>code\<close> attribute
  is retried as the claim says: two calls, a sleep of 2 seconds between them, and the text
  as the result.
\<close>

theorem text_rate_limit_once_then_success_fails_job:
  "classify (message rate_limited_no_status) = RateLimit
   \<and> responses (scripted [Raises rate_limited_no_status] (Returns ''ok'')) [] 0 2 =
       [Raises rate_limited_no_status, Returns ''ok'']
   \<and> call_with_retry (scripted [Raises rate_limited_no_status] (Returns ''ok'')) [] 0 =
       (Inl rate_limited_no_status, 1, [Called 0])
   \<and> futures (run (scripted [Raises rate_limited_no_status] (Returns ''ok'')) (init 0)
        [Submit [], Tick, Tick]) = [Done (Inl rate_limited_no_status)]
   \<and> trace (run (scripted [Raises rate_limited_no_status] (Returns ''ok'')) (init 0)
        [Submit [], Tick, Tick]) =
       [Submitted 0, Dequeued 0, Invoked 0 0, Resolved 0 (Inl rate_limited_no_status)]
   \<and> call_with_retry (scripted [Raises too_many_requests] (Returns ''ok'')) [] 0 =
       (Inr ''ok'', 2, [Called 0, Slept 2, Called 1])"
proof -
  have cls: "classify (message rate_limited_no_status) = RateLimit"
    by code_simp
  have resp: "responses (scripted [Raises rate_limited_no_status] (Returns ''ok'')) [] 0 2 =
       [Raises rate_limited_no_status, Returns ''ok'']"
    by code_simp
  have fails: "call_with_retry (scripted [Raises rate_limited_no_status] (Returns ''ok'')) [] 0 =
       (Inl rate_limited_no_status, 1, [Called 0])"
    by code_simp
  have fut: "futures (run (scripted [Raises rate_limited_no_status] (Returns ''ok'')) (init 0)
        [Submit [], Tick, Tick]) = [Done (Inl rate_limited_no_status)]"
    by code_simp
  have tr: "trace (run (scripted [Raises rate_limited_no_status] (Returns ''ok'')) (init 0)
        [Submit [], Tick, Tick]) =
       [Submitted 0, Dequeued 0, Invoked 0 0, Resolved 0 (Inl rate_limited_no_status)]"
    by code_simp
  have retried: "call_with_retry (scripted [Raises too_many_requests] (Returns ''ok'')) [] 0 =
       (Inr ''ok'', 2, [Called 0, Slept 2, Called 1])"
    by code_simp
  from cls resp fails fut tr retried show ?thesis
    by blast
qed


subsection \<open>Claim C3\<close>

text \<open>
  C3 fails on the code. When the provider fails every call with a rate-limit failure that
  shows only in the text of the exception, the job fails after one call, not after five:
  there is no retry and no sleep. With the status 429 in the \<open>code\<close> attribute the same
  provider is called five times, with the delays 2, 4, 8 and 16 seconds, and the exception
  of the last call is the one raised.
\<close>

theorem text_rate_limit_always_fails_after_one_attempt:
  "classify (message rate_limited_no_status) = RateLimit
   \<and> responses (scripted [] (Raises rate_limited_no_status)) [] 0 5 =
       replicate 5 (Raises rate_limited_no_status)
   \<and> call_with_retry (scripted [] (Raises rate_limited_no_status)) [] 0 =
       (Inl rate_limited_no_status, 1, [Called 0])
   \<and> futures (run (scripted [] (Raises rate_limited_no_status)) (init 0)
        [Submit [], Tick, Tick]) = [Done (Inl rate_limited_no_status)]
   \<and> call_with_retry (scripted [] (Raises too_many_requests)) [] 0 =
       (Inl too_many_requests, 5,
        [Called 0, Slept 2, Called 1, Slept 4, Called 2, Slept 8, Called 3, Slept 16, Called 4])"
proof -
  have cls: "classify (message rate_limited_no_status) = RateLimit"
    by code_simp
  have resp: "responses (scripted [] (Raises rate_limited_no_status)) [] 0 5 =
       replicate 5 (Raises rate_limited_no_status)"
    by code_simp
  have fails: "call_with_retry (scripted [] (Raises rate_limited_no_status)) [] 0 =
       (Inl rate_limited_no_status, 1, [Called 0])"
    by code_simp
  have fut: "futures (run (scripted [] (Raises rate_limited_no_status)) (init 0)
        [Submit [], Tick, Tick]) = [Done (Inl rate_limited_no_status)]"
    by code_simp
  have retried: "call_with_retry (scripted [] (Raises too_many_requests)) [] 0 =
       (Inl too_many_requests, 5,
        [Called 0, Slept 2, Called 1, Slept 4, Called 2, Slept 8, Called 3, Slept 16, Called 4])"
    by code_simp
  from cls resp fails fut retried show ?thesis
    by blast
qed


subsection \<open>Claim C9\<close>

text \<open>
  C9. If the first call of the provider for a job raises an exception whose status is not
  429, \<open>call_with_retry\<close> raises that exception after this single call, without sleeping.
  The worker that takes the job from the head of the queue sets the exception on the job's
  pending future in its second step, and \<open>chat\<close>, awaiting the future, raises the same
  exception. (When the caller has cancelled the future, the worker makes the same single
  call and ends on the cancelled future.)
\<close>

theorem other_failure_fails_after_one_attempt:
  assumes "generate_content contents p = (Raises exc, p')" and "status_of exc \<noteq> PyInt 429"
  shows "call_with_retry generate_content contents p = (Inl exc, p', [Called 0])
    \<and> (\<forall>s f rest. worker_task s = Waiting \<and> queue s = (f, contents) # rest
          \<and> provider_state s = p \<and> f < length (futures s) \<and> futures s ! f = Pending \<longrightarrow>
          (worker_step generate_content ^^ 2) s =
             s\<lparr>queue := rest,
               provider_state := p',
               futures := (futures s)[f := Done (Inl exc)],
               worker_task := Waiting,
               trace := trace s @ [Dequeued f, Invoked f 0, Resolved f (Inl exc)]\<rparr>)
    \<and> (\<forall>s f rest. worker_task s = Waiting \<and> queue s = (f, contents) # rest
          \<and> provider_state s = p \<and> \<not> (f < length (futures s) \<and> futures s ! f = Pending) \<longrightarrow>
          (worker_step generate_content ^^ 2) s =
             s\<lparr>queue := rest,
               provider_state := p',
               worker_task := Dead,
               trace := trace s @ [Dequeued f, Invoked f 0, Crashed f]\<rparr>)
    \<and> (\<forall>history current_message await_job.
          await_job (build_contents history current_message) = Some (Inl exc) \<longrightarrow>
          chat history current_message await_job = Some (Inl exc))"
proof -
  have one: "call_with_retry generate_content contents p = (Inl exc, p', [Called 0])"
    using assms call_with_retry_not_retried [of generate_content contents p exc p']
    by blast
  have steps: "(worker_step generate_content ^^ 2) s =
     resolve f (Inl exc)
       (s\<lparr>queue := rest,
          provider_state := p',
          trace := trace s @ [Dequeued f, Invoked f 0]\<rparr>)"
    if "worker_task s = Waiting" and "queue s = (f, contents) # rest" and "provider_state s = p"
    for s :: "'a dispatcher" and f rest
    using assms that worker_two_steps_not_retried [of generate_content contents s exc p' f rest]
    by simp
  have two: "\<forall>s f rest. worker_task s = Waiting \<and> queue s = (f, contents) # rest
          \<and> provider_state s = p \<and> f < length (futures s) \<and> futures s ! f = Pending \<longrightarrow>
          (worker_step generate_content ^^ 2) s =
             s\<lparr>queue := rest,
               provider_state := p',
               futures := (futures s)[f := Done (Inl exc)],
               worker_task := Waiting,
               trace := trace s @ [Dequeued f, Invoked f 0, Resolved f (Inl exc)]\<rparr>"
    by (simp add: steps resolve_def)
  have gone: "\<forall>s f rest. worker_task s = Waiting \<and> queue s = (f, contents) # rest
          \<and> provider_state s = p \<and> \<not> (f < length (futures s) \<and> futures s ! f = Pending) \<longrightarrow>
          (worker_step generate_content ^^ 2) s =
             s\<lparr>queue := rest,
               provider_state := p',
               worker_task := Dead,
               trace := trace s @ [Dequeued f, Invoked f 0, Crashed f]\<rparr>"
    by (auto simp: steps resolve_def)
  have three: "\<forall>history current_message await_job.
          await_job (build_contents history current_message) = Some (Inl exc) \<longrightarrow>
          chat history current_message await_job = Some (Inl exc)"
    by (simp add: chat_def)
  from one two gone three show ?thesis
    by blast
qed

theorem other_failure_fails_after_one_attempt_witness:
  "scripted [Raises unauthenticated] (Returns ''ok'') [] 0 = (Raises unauthenticated, 1)
   \<and> status_of unauthenticated = PyInt 401
   \<and> call_with_retry (scripted [Raises unauthenticated] (Returns ''ok'')) [] 0 =
       (Inl unauthenticated, 1, [Called 0])
   \<and> futures (snd (enqueue [] (init (0::nat)))) ! 0 = Pending
   \<and> futures ((worker_step (scripted [Raises unauthenticated] (Returns ''ok'')) ^^ 2)
        (snd (enqueue [] (init 0)))) = [Done (Inl unauthenticated)]
   \<and> trace ((worker_step (scripted [Raises unauthenticated] (Returns ''ok'')) ^^ 2)
        (snd (enqueue [] (init 0)))) =
       [Submitted 0, Dequeued 0, Invoked 0 0, Resolved 0 (Inl unauthenticated)]
   \<and> futures (cancel 0 (snd (enqueue [] (init (0::nat))))) ! 0 = Cancelled
   \<and> trace ((worker_step (scripted [Raises unauthenticated] (Returns ''ok'')) ^^ 2)
        (cancel 0 (snd (enqueue [] (init 0))))) =
       [Submitted 0, Abandoned 0, Dequeued 0, Invoked 0 0, Crashed 0]
   \<and> chat [] ''hi'' (\<lambda>contents. Some (Inl unauthenticated)) = Some (Inl unauthenticated)"
proof -
  define g where "g = scripted [Raises unauthenticated] (Returns ''ok'')"
  define s0 :: "nat dispatcher" where "s0 = snd (enqueue [] (init 0))"
  define s1 :: "nat dispatcher" where "s1 = cancel 0 (snd (enqueue [] (init 0)))"
  have call: "g [] 0 = (Raises unauthenticated, 1)"
    by (simp add: g_def scripted_def)
  have st: "status_of unauthenticated = PyInt 401"
    by (simp add: status_of_def truthy_def unauthenticated_def)
  then have other: "status_of unauthenticated \<noteq> PyInt 429"
    by simp
  note facts = other_failure_fails_after_one_attempt [of g "[]" 0 unauthenticated 1, OF call other]
  from facts have run: "call_with_retry g [] 0 = (Inl unauthenticated, 1, [Called 0])"
    by blast
  have pending: "futures s0 ! 0 = Pending"
    by (simp add: s0_def enqueue_def init_def)
  have "worker_task s0 = Waiting \<and> queue s0 = (0, []) # [] \<and> provider_state s0 = 0
      \<and> 0 < length (futures s0) \<and> futures s0 ! 0 = Pending"
    by (simp add: s0_def enqueue_def init_def)
  with facts have "(worker_step g ^^ 2) s0 =
             s0\<lparr>queue := [],
               provider_state := 1,
               futures := (futures s0)[0 := Done (Inl unauthenticated)],
               worker_task := Waiting,
               trace := trace s0 @ [Dequeued 0, Invoked 0 0, Resolved 0 (Inl unauthenticated)]\<rparr>"
    by blast
  then have fut: "futures ((worker_step g ^^ 2) s0) = [Done (Inl unauthenticated)]"
      and tr: "trace ((worker_step g ^^ 2) s0) =
        [Submitted 0, Dequeued 0, Invoked 0 0, Resolved 0 (Inl unauthenticated)]"
    by (simp_all add: s0_def enqueue_def init_def)
  have cancelled: "futures s1 ! 0 = Cancelled"
    by (simp add: s1_def cancel_def enqueue_def init_def)
  have "worker_task s1 = Waiting \<and> queue s1 = (0, []) # [] \<and> provider_state s1 = 0
      \<and> \<not> (0 < length (futures s1) \<and> futures s1 ! 0 = Pending)"
    by (simp add: s1_def cancel_def enqueue_def init_def)
  with facts have "(worker_step g ^^ 2) s1 =
             s1\<lparr>queue := [],
               provider_state := 1,
               worker_task := Dead,
               trace := trace s1 @ [Dequeued 0, Invoked 0 0, Crashed 0]\<rparr>"
    by blast
  then have tr1: "trace ((worker_step g ^^ 2) s1) =
        [Submitted 0, Abandoned 0, Dequeued 0, Invoked 0 0, Crashed 0]"
    by (simp add: s1_def cancel_def enqueue_def init_def)
  from facts have "\<forall>history current_message await_job.
          await_job (build_contents history current_message) = Some (Inl unauthenticated) \<longrightarrow>
          chat history current_message await_job = Some (Inl unauthenticated)"
    by blast
  then have "chat [] ''hi'' (\<lambda>contents. Some (Inl unauthenticated)) =
      Some (Inl unauthenticated)"
    apply -
    apply (drule spec [where x = "[]"])
    apply (drule spec [where x = "''hi''"])
    apply (drule spec [where x = "\<lambda>contents. Some (Inl unauthenticated)"])
    apply simp
    done
  with call st run pending fut tr cancelled tr1 show ?thesis
    unfolding g_def s0_def s1_def by blast
qed


subsection \<open>Claim C8\<close>

text \<open>
  C8 fails on the code. The retry loop looks only at the exception's \<open>code\<close> and
  \<open>status_code\<close> attributes; the text of the exception is never inspected, although
  the comment at the test announces it. An exception without these attributes whose text
  carries the signals \<open>429\<close> and \<open>quota\<close> is classified as a rate-limit failure at the
  HTTP boundary, but the job fails after its single first call, although the provider
  would have answered the second call.
\<close>

theorem rate_limit_signal_in_text_not_retried:
  "classify (message rate_limited_no_status) = RateLimit
   \<and> status_of rate_limited_no_status = PyNone
   \<and> call_with_retry (scripted [Raises rate_limited_no_status] (Returns ''ok'')) [] 0 =
       (Inl rate_limited_no_status, 1, [Called 0])
   \<and> scripted [Raises rate_limited_no_status] (Returns ''ok'') [] 1 = (Returns ''ok'', 2)"
proof -
  have cls: "classify (message rate_limited_no_status) = RateLimit"
    by code_simp
  have st: "status_of rate_limited_no_status = PyNone"
    by (simp add: status_of_def truthy_def rate_limited_no_status_def)
  have call: "scripted [Raises rate_limited_no_status] (Returns ''ok'') [] 0 =
      (Raises rate_limited_no_status, 1)"
    by (simp add: scripted_def)
  have "status_of rate_limited_no_status \<noteq> PyInt 429"
    by (simp add: st)
  with call have run:
    "call_with_retry (scripted [Raises rate_limited_no_status] (Returns ''ok'')) [] 0 =
       (Inl rate_limited_no_status, 1, [Called 0])"
    using call_with_retry_not_retried
      [of "scripted [Raises rate_limited_no_status] (Returns ''ok'')" "[]" 0
          rate_limited_no_status 1]
    by blast
  have next_call: "scripted [Raises rate_limited_no_status] (Returns ''ok'') [] 1 =
      (Returns ''ok'', 2)"
    by (simp add: scripted_def)
  from cls st run next_call show ?thesis
    by blast
qed



section \<open>Order of execution\<close>

lemma submitted_append [simp]: "submitted (xs @ ys) = submitted xs @ submitted ys"
  by (simp add: submitted_def)

lemma dequeued_append [simp]: "dequeued (xs @ ys) = dequeued xs @ dequeued ys"
  by (simp add: dequeued_def)

lemma finished_append [simp]: "finished (xs @ ys) = finished xs @ finished ys"
  by (simp add: finished_def)

lemma trace_readings [simp]:
  "submitted [] = []" "dequeued [] = []" "finished [] = []"
  "submitted (e # tr) = (case e of Submitted f \<Rightarrow> [f] | _ \<Rightarrow> []) @ submitted tr"
  "dequeued (e # tr) = (case e of Dequeued f \<Rightarrow> [f] | _ \<Rightarrow> []) @ dequeued tr"
  "finished (e # tr) = ends e @ finished tr"
  by (simp_all add: submitted_def dequeued_def finished_def)

lemma Resolved_in_finished: "Resolved f r \<in> set tr \<Longrightarrow> f \<in> set (finished tr)"
  by (induction tr) auto

lemma in_finished_cases:
  "f \<in> set (finished tr) \<Longrightarrow> (\<exists>r. Resolved f r \<in> set tr) \<or> Crashed f \<in> set tr"
proof (induction tr)
  case Nil
  then show ?case by simp
next
  case (Cons e tr)
  then show ?case by (cases e) auto
qed

lemma in_order_Nil: "in_order []"
  by (simp add: in_order_def)

lemma in_order_snoc:
  "in_order (tr @ [e]) \<longleftrightarrow>
     in_order tr \<and> (\<forall>f. begins e = Some f \<longrightarrow> finished tr = [0..<f])"
proof -
  have "in_order (tr @ [e]) \<longleftrightarrow>
      (\<forall>n < length tr. \<forall>f. begins ((tr @ [e]) ! n) = Some f \<longrightarrow>
          finished (take n (tr @ [e])) = [0..<f])
      \<and> (\<forall>f. begins ((tr @ [e]) ! length tr) = Some f \<longrightarrow>
          finished (take (length tr) (tr @ [e])) = [0..<f])"
    by (auto simp: in_order_def less_Suc_eq)
  also have "\<dots> \<longleftrightarrow>
      in_order tr \<and> (\<forall>f. begins e = Some f \<longrightarrow> finished tr = [0..<f])"
    by (simp add: in_order_def nth_append)
  finally show ?thesis .
qed

lemma in_order_snoc2:
  "in_order (tr @ [e1, e2]) \<longleftrightarrow>
     in_order tr
     \<and> (\<forall>f. begins e1 = Some f \<longrightarrow> finished tr = [0..<f])
     \<and> (\<forall>f. begins e2 = Some f \<longrightarrow> finished (tr @ [e1]) = [0..<f])"
proof -
  have "tr @ [e1, e2] = (tr @ [e1]) @ [e2]"
    by simp
  then show ?thesis
    by (simp only: in_order_snoc) blast
qed

lemma fifo_invI:
  assumes "submitted (trace s) = [0..<length (futures s)]"
    and "length (dequeued (trace s)) \<le> length (futures s)"
    and "dequeued (trace s) = [0..<length (dequeued (trace s))]"
    and "map fst (queue s) = [length (dequeued (trace s))..<length (futures s)]"
    and "case worker_task s of
           Executing f c attempts last_err \<Rightarrow>
             Suc f = length (dequeued (trace s)) \<and> finished (trace s) = [0..<f]
         | _ \<Rightarrow> finished (trace s) = [0..<length (dequeued (trace s))]"
    and "in_order (trace s)"
    and "\<And>f r. Resolved f r \<in> set (trace s) \<Longrightarrow> f < length (futures s) \<and> futures s ! f = Done r"
    and "\<And>f. f < length (futures s) \<Longrightarrow> futures s ! f = Cancelled \<Longrightarrow> Abandoned f \<in> set (trace s)"
    and "\<And>f r. f < length (futures s) \<Longrightarrow> futures s ! f = Done r \<Longrightarrow> Resolved f r \<in> set (trace s)"
    and "\<And>f. Crashed f \<in> set (trace s) \<Longrightarrow> Abandoned f \<in> set (trace s)"
  shows "fifo_inv s"
  unfolding fifo_inv_def Let_def using assms by blast

lemma fifo_invD:
  assumes "fifo_inv s"
  shows "submitted (trace s) = [0..<length (futures s)]"
    and "length (dequeued (trace s)) \<le> length (futures s)"
    and "dequeued (trace s) = [0..<length (dequeued (trace s))]"
    and "map fst (queue s) = [length (dequeued (trace s))..<length (futures s)]"
    and "case worker_task s of
           Executing f c attempts last_err \<Rightarrow>
             Suc f = length (dequeued (trace s)) \<and> finished (trace s) = [0..<f]
         | _ \<Rightarrow> finished (trace s) = [0..<length (dequeued (trace s))]"
    and "in_order (trace s)"
    and "\<And>f r. Resolved f r \<in> set (trace s) \<Longrightarrow> f < length (futures s) \<and> futures s ! f = Done r"
    and "\<And>f. f < length (futures s) \<Longrightarrow> futures s ! f = Cancelled \<Longrightarrow> Abandoned f \<in> set (trace s)"
    and "\<And>f r. f < length (futures s) \<Longrightarrow> futures s ! f = Done r \<Longrightarrow> Resolved f r \<in> set (trace s)"
    and "\<And>f. Crashed f \<in> set (trace s) \<Longrightarrow> Abandoned f \<in> set (trace s)"
  using assms unfolding fifo_inv_def Let_def by blast+

lemma fifo_inv_init: "fifo_inv (init p)"
  by (simp add: fifo_inv_def init_def in_order_Nil)

lemma fifo_inv_enqueue:
  assumes "fifo_inv s"
  shows "fifo_inv (snd (enqueue c s))"
proof -
  note inv = fifo_invD [OF assms]
  define s' where "s' = snd (enqueue c s)"
  have tr: "trace s' = trace s @ [Submitted (length (futures s))]"
    and fs: "futures s' = futures s @ [Pending]"
    and q: "queue s' = queue s @ [(length (futures s), c)]"
    and w: "worker_task s' =
        (if worker_task s = NotStarted \<or> worker_task s = Dead then Waiting else worker_task s)"
    by (simp_all add: s'_def enqueue_def Let_def)
  have "fifo_inv s'"
  proof (rule fifo_invI)
    show "submitted (trace s') = [0..<length (futures s')]"
      by (simp add: tr fs inv(1))
    show "length (dequeued (trace s')) \<le> length (futures s')"
      using inv(2) by (simp add: tr fs)
    show "dequeued (trace s') = [0..<length (dequeued (trace s'))]"
      using inv(3) by (simp add: tr)
    show "map fst (queue s') = [length (dequeued (trace s'))..<length (futures s')]"
      using inv(2) by (simp add: tr fs q inv(4))
    show "case worker_task s' of
           Executing f c attempts last_err \<Rightarrow>
             Suc f = length (dequeued (trace s')) \<and> finished (trace s') = [0..<f]
         | _ \<Rightarrow> finished (trace s') = [0..<length (dequeued (trace s'))]"
      using inv(5) by (cases "worker_task s") (simp_all add: w tr)
    show "in_order (trace s')"
      by (simp add: tr in_order_snoc inv(6))
    show "f < length (futures s') \<and> futures s' ! f = Done r"
      if "Resolved f r \<in> set (trace s')" for f r
    proof -
      from that have "Resolved f r \<in> set (trace s)"
        by (simp add: tr)
      from inv(7) [OF this] show ?thesis
        by (simp add: fs nth_append)
    qed
    show "Abandoned f \<in> set (trace s')"
      if "f < length (futures s')" and "futures s' ! f = Cancelled" for f
    proof -
      from that have "f < length (futures s) \<and> futures s ! f = Cancelled"
        by (cases "f < length (futures s)") (simp_all add: fs nth_append less_Suc_eq)
      with inv(8) show ?thesis
        by (simp add: tr)
    qed
    show "Resolved f r \<in> set (trace s')"
      if "f < length (futures s')" and "futures s' ! f = Done r" for f r
    proof -
      from that have "f < length (futures s) \<and> futures s ! f = Done r"
        by (cases "f < length (futures s)") (simp_all add: fs nth_append less_Suc_eq)
      with inv(9) show ?thesis
        by (simp add: tr)
    qed
    show "Abandoned f \<in> set (trace s')" if "Crashed f \<in> set (trace s')" for f
      using that inv(10) [of f] by (simp add: tr)
  qed
  then show ?thesis
    by (simp add: s'_def)
qed

lemma fifo_inv_cancel:
  assumes "fifo_inv s"
  shows "fifo_inv (cancel f s)"
proof (cases "f < length (futures s) \<and> futures s ! f = Pending")
  case False
  with assms show ?thesis
    by (auto simp: cancel_def)
next
  case True
  note inv = fifo_invD [OF assms]
  define s' where "s' = cancel f s"
  from True have tr: "trace s' = trace s @ [Abandoned f]"
    and fs: "futures s' = (futures s)[f := Cancelled]"
    and q: "queue s' = queue s"
    and w: "worker_task s' = worker_task s"
    by (simp_all add: s'_def cancel_def)
  have "fifo_inv s'"
  proof (rule fifo_invI)
    show "submitted (trace s') = [0..<length (futures s')]"
      by (simp add: tr fs inv(1))
    show "length (dequeued (trace s')) \<le> length (futures s')"
      using inv(2) by (simp add: tr fs)
    show "dequeued (trace s') = [0..<length (dequeued (trace s'))]"
      using inv(3) by (simp add: tr)
    show "map fst (queue s') = [length (dequeued (trace s'))..<length (futures s')]"
      by (simp add: tr fs q inv(4))
    show "case worker_task s' of
           Executing f c attempts last_err \<Rightarrow>
             Suc f = length (dequeued (trace s')) \<and> finished (trace s') = [0..<f]
         | _ \<Rightarrow> finished (trace s') = [0..<length (dequeued (trace s'))]"
      using inv(5) by (cases "worker_task s") (simp_all add: w tr)
    show "in_order (trace s')"
      by (simp add: tr in_order_snoc inv(6))
    show "f' < length (futures s') \<and> futures s' ! f' = Done r"
      if "Resolved f' r \<in> set (trace s')" for f' r
    proof -
      from that have old: "Resolved f' r \<in> set (trace s)"
        by (simp add: tr)
      from inv(7) [OF old] True have "f' \<noteq> f"
        by auto
      with inv(7) [OF old] show ?thesis
        by (simp add: fs)
    qed
    show "Abandoned f' \<in> set (trace s')"
      if "f' < length (futures s')" and "futures s' ! f' = Cancelled" for f'
    proof (cases "f' = f")
      case True
      then show ?thesis by (simp add: tr)
    next
      case False
      with that inv(8) [of f'] show ?thesis
        by (simp add: tr fs)
    qed
    show "Resolved f' r \<in> set (trace s')"
      if "f' < length (futures s')" and "futures s' ! f' = Done r" for f' r
    proof -
      from that have "f' \<noteq> f"
        by (auto simp: fs)
      with that inv(9) [of f' r] show ?thesis
        by (simp add: tr fs)
    qed
    show "Abandoned f' \<in> set (trace s')" if "Crashed f' \<in> set (trace s')" for f'
      using that inv(10) [of f'] by (simp add: tr)
  qed
  then show ?thesis
    by (simp add: s'_def)
qed

lemma fifo_inv_dequeue:
  assumes "fifo_inv s" and "worker_task s = Waiting" and "queue s = (f, c) # rest"
  shows "fifo_inv (s\<lparr>queue := rest,
                     worker_task := Executing f c attempts None,
                     trace := trace s @ [Dequeued f]\<rparr>)"
proof -
  note inv = fifo_invD [OF assms(1)]
  define s' where "s' = s\<lparr>queue := rest,
                     worker_task := Executing f c attempts None,
                     trace := trace s @ [Dequeued f]\<rparr>"
  have tr: "trace s' = trace s @ [Dequeued f]"
    and fs: "futures s' = futures s"
    and q: "queue s' = rest"
    and w: "worker_task s' = Executing f c attempts None"
    by (simp_all add: s'_def)
  define d where "d = length (dequeued (trace s))"
  from inv(4) assms(3) have "[d..<length (futures s)] = f # map fst rest"
    by (simp add: d_def)
  then have head: "f = d" and less: "d < length (futures s)"
      and tail: "map fst rest = [Suc d..<length (futures s)]"
    by (auto simp: upt_eq_Cons_conv)
  from inv(5) assms(2) have ended: "finished (trace s) = [0..<d]"
    by (simp add: d_def)
  have "fifo_inv s'"
  proof (rule fifo_invI)
    show "submitted (trace s') = [0..<length (futures s')]"
      by (simp add: tr fs inv(1))
    show "length (dequeued (trace s')) \<le> length (futures s')"
      using less by (simp add: tr fs d_def)
    show "dequeued (trace s') = [0..<length (dequeued (trace s'))]"
      using inv(3) by (simp add: tr head d_def)
    show "map fst (queue s') = [length (dequeued (trace s'))..<length (futures s')]"
      using tail by (simp add: tr fs q d_def)
    show "case worker_task s' of
           Executing f c attempts last_err \<Rightarrow>
             Suc f = length (dequeued (trace s')) \<and> finished (trace s') = [0..<f]
         | _ \<Rightarrow> finished (trace s') = [0..<length (dequeued (trace s'))]"
      using ended by (simp add: w tr head d_def)
    show "in_order (trace s')"
      using ended by (simp add: tr in_order_snoc inv(6) head)
    show "f' < length (futures s') \<and> futures s' ! f' = Done r"
      if "Resolved f' r \<in> set (trace s')" for f' r
      using that inv(7) [of f' r] by (simp add: tr fs)
    show "Abandoned f' \<in> set (trace s')"
      if "f' < length (futures s')" and "futures s' ! f' = Cancelled" for f'
      using that inv(8) [of f'] by (simp add: tr fs)
    show "Resolved f' r \<in> set (trace s')"
      if "f' < length (futures s')" and "futures s' ! f' = Done r" for f' r
      using that inv(9) [of f' r] by (simp add: tr fs)
    show "Abandoned f' \<in> set (trace s')" if "Crashed f' \<in> set (trace s')" for f'
      using that inv(10) [of f'] by (simp add: tr)
  qed
  then show ?thesis
    by (simp add: s'_def)
qed


lemma fifo_inv_resolve:
  assumes "fifo_inv s" and "worker_task s = Executing f c attempts last_err"
    and "trace s1 = trace s @ es" and "futures s1 = futures s" and "queue s1 = queue s"
    and "es = [] \<or> es = [Invoked f a]"
  shows "fifo_inv (resolve f R s1)"
proof -
  note inv = fifo_invD [OF assms(1)]
  define s' where "s' = resolve f R s1"
  from inv(5) assms(2) have d: "Suc f = length (dequeued (trace s))"
      and ended: "finished (trace s) = [0..<f]"
    by simp_all
  from d inv(2) have less: "f < length (futures s)"
    by simp
  from assms(6) have quiet: "submitted es = []" "dequeued es = []" "finished es = []"
    by auto
  from assms(6) inv(6) ended have order: "in_order (trace s @ es)"
    by (auto simp: in_order_snoc)
  show ?thesis
  proof (cases "futures s ! f = Pending")
    case True
    with less have tr: "trace s' = trace s @ es @ [Resolved f R]"
      and fs: "futures s' = (futures s)[f := Done R]"
      and q: "queue s' = queue s"
      and w: "worker_task s' = Waiting"
      by (simp_all add: s'_def resolve_def assms(3,4,5))
    have "fifo_inv s'"
    proof (rule fifo_invI)
      show "submitted (trace s') = [0..<length (futures s')]"
        by (simp add: tr fs quiet inv(1))
      show "length (dequeued (trace s')) \<le> length (futures s')"
        using inv(2) by (simp add: tr fs quiet)
      show "dequeued (trace s') = [0..<length (dequeued (trace s'))]"
        using inv(3) by (simp add: tr quiet)
      show "map fst (queue s') = [length (dequeued (trace s'))..<length (futures s')]"
        by (simp add: tr fs q quiet inv(4))
      show "case worker_task s' of
             Executing f c attempts last_err \<Rightarrow>
               Suc f = length (dequeued (trace s')) \<and> finished (trace s') = [0..<f]
           | _ \<Rightarrow> finished (trace s') = [0..<length (dequeued (trace s'))]"
        by (simp add: w tr quiet ended d [symmetric])
      show "in_order (trace s')"
        using order in_order_snoc [of "trace s @ es" "Resolved f R"] by (simp add: tr)
      show "f' < length (futures s') \<and> futures s' ! f' = Done r"
        if "Resolved f' r \<in> set (trace s')" for f' r
      proof -
        from that assms(6) consider "Resolved f' r \<in> set (trace s)" | "f' = f" "r = R"
          by (auto simp: tr)
        then show ?thesis
        proof cases
          case 1
          then have "f' \<in> set (finished (trace s))"
            by (rule Resolved_in_finished)
          with ended have "f' \<noteq> f"
            by simp
          with inv(7) [OF 1] show ?thesis
            by (simp add: fs)
        next
          case 2
          with less show ?thesis
            by (simp add: fs)
        qed
      qed
      show "Abandoned f' \<in> set (trace s')"
        if "f' < length (futures s')" and "futures s' ! f' = Cancelled" for f'
      proof -
        from that have "f' \<noteq> f"
          by (auto simp: fs)
        with that inv(8) [of f'] show ?thesis
          by (simp add: tr fs)
      qed
      show "Resolved f' r \<in> set (trace s')"
        if "f' < length (futures s')" and "futures s' ! f' = Done r" for f' r
      proof (cases "f' = f")
        case True
        with that show ?thesis
          by (simp add: tr fs)
      next
        case False
        with that inv(9) [of f' r] show ?thesis
          by (simp add: tr fs)
      qed
      show "Abandoned f' \<in> set (trace s')" if "Crashed f' \<in> set (trace s')" for f'
      proof -
        from that assms(6) have "Crashed f' \<in> set (trace s)"
          by (auto simp: tr)
        with inv(10) [of f'] show ?thesis
          by (simp add: tr)
      qed
    qed
    then show ?thesis
      by (simp add: s'_def)
  next
    case False
    then have tr: "trace s' = trace s @ es @ [Crashed f]"
      and fs: "futures s' = futures s"
      and q: "queue s' = queue s"
      and w: "worker_task s' = Dead"
      by (simp_all add: s'_def resolve_def assms(3,4,5))
    have left: "Abandoned f \<in> set (trace s)"
    proof (cases "futures s ! f")
      case Pending
      with False show ?thesis by simp
    next
      case (Done r)
      with less inv(9) [of f r] have "Resolved f r \<in> set (trace s)"
        by simp
      then have "f \<in> set (finished (trace s))"
        by (rule Resolved_in_finished)
      with ended show ?thesis
        by simp
    next
      case Cancelled
      with less inv(8) [of f] show ?thesis
        by simp
    qed
    have "fifo_inv s'"
    proof (rule fifo_invI)
      show "submitted (trace s') = [0..<length (futures s')]"
        by (simp add: tr fs quiet inv(1))
      show "length (dequeued (trace s')) \<le> length (futures s')"
        using inv(2) by (simp add: tr fs quiet)
      show "dequeued (trace s') = [0..<length (dequeued (trace s'))]"
        using inv(3) by (simp add: tr quiet)
      show "map fst (queue s') = [length (dequeued (trace s'))..<length (futures s')]"
        by (simp add: tr fs q quiet inv(4))
      show "case worker_task s' of
             Executing f c attempts last_err \<Rightarrow>
               Suc f = length (dequeued (trace s')) \<and> finished (trace s') = [0..<f]
           | _ \<Rightarrow> finished (trace s') = [0..<length (dequeued (trace s'))]"
        by (simp add: w tr quiet ended d [symmetric])
      show "in_order (trace s')"
        using order in_order_snoc [of "trace s @ es" "Crashed f"] by (simp add: tr)
      show "f' < length (futures s') \<and> futures s' ! f' = Done r"
        if "Resolved f' r \<in> set (trace s')" for f' r
      proof -
        from that assms(6) have "Resolved f' r \<in> set (trace s)"
          by (auto simp: tr)
        from inv(7) [OF this] show ?thesis
          by (simp add: fs)
      qed
      show "Abandoned f' \<in> set (trace s')"
        if "f' < length (futures s')" and "futures s' ! f' = Cancelled" for f'
        using that inv(8) [of f'] by (simp add: tr fs)
      show "Resolved f' r \<in> set (trace s')"
        if "f' < length (futures s')" and "futures s' ! f' = Done r" for f' r
        using that inv(9) [of f' r] by (simp add: tr fs)
      show "Abandoned f' \<in> set (trace s')" if "Crashed f' \<in> set (trace s')" for f'
      proof -
        from that assms(6) consider "Crashed f' \<in> set (trace s)" | "f' = f"
          by (auto simp: tr)
        then show ?thesis
        proof cases
          case 1
          with inv(10) [of f'] show ?thesis
            by (simp add: tr)
        next
          case 2
          with left show ?thesis
            by (simp add: tr)
        qed
      qed
    qed
    then show ?thesis
      by (simp add: s'_def)
  qed
qed

lemma fifo_inv_continue:
  assumes "fifo_inv s" and "worker_task s = Executing f c attempts last_err"
  shows "fifo_inv (s\<lparr>provider_state := p',
                     worker_task := Executing f c attempts' last_err',
                     trace := trace s @ [Invoked f a, Sleeping f delay]\<rparr>)"
proof -
  note inv = fifo_invD [OF assms(1)]
  define s' where "s' = s\<lparr>provider_state := p',
                     worker_task := Executing f c attempts' last_err',
                     trace := trace s @ [Invoked f a, Sleeping f delay]\<rparr>"
  have tr: "trace s' = trace s @ [Invoked f a, Sleeping f delay]"
    and fs: "futures s' = futures s"
    and q: "queue s' = queue s"
    and w: "worker_task s' = Executing f c attempts' last_err'"
    by (simp_all add: s'_def)
  from inv(5) assms(2) have d: "Suc f = length (dequeued (trace s))"
      and ended: "finished (trace s) = [0..<f]"
    by simp_all
  have "fifo_inv s'"
  proof (rule fifo_invI)
    show "submitted (trace s') = [0..<length (futures s')]"
      by (simp add: tr fs inv(1))
    show "length (dequeued (trace s')) \<le> length (futures s')"
      using inv(2) by (simp add: tr fs)
    show "dequeued (trace s') = [0..<length (dequeued (trace s'))]"
      using inv(3) by (simp add: tr)
    show "map fst (queue s') = [length (dequeued (trace s'))..<length (futures s')]"
      by (simp add: tr fs q inv(4))
    show "case worker_task s' of
           Executing f c attempts last_err \<Rightarrow>
             Suc f = length (dequeued (trace s')) \<and> finished (trace s') = [0..<f]
         | _ \<Rightarrow> finished (trace s') = [0..<length (dequeued (trace s'))]"
      using d ended by (simp add: w tr)
    show "in_order (trace s')"
      using ended by (simp add: tr in_order_snoc2 inv(6))
    show "f' < length (futures s') \<and> futures s' ! f' = Done r"
      if "Resolved f' r \<in> set (trace s')" for f' r
      using that inv(7) [of f' r] by (simp add: tr fs)
    show "Abandoned f' \<in> set (trace s')"
      if "f' < length (futures s')" and "futures s' ! f' = Cancelled" for f'
      using that inv(8) [of f'] by (simp add: tr fs)
    show "Resolved f' r \<in> set (trace s')"
      if "f' < length (futures s')" and "futures s' ! f' = Done r" for f' r
      using that inv(9) [of f' r] by (simp add: tr fs)
    show "Abandoned f' \<in> set (trace s')" if "Crashed f' \<in> set (trace s')" for f'
      using that inv(10) [of f'] by (simp add: tr)
  qed
  then show ?thesis
    by (simp add: s'_def)
qed

lemma fifo_inv_worker_step:
  assumes "fifo_inv s"
  shows "fifo_inv (worker_step g s)"
proof (cases "worker_task s")
  case NotStarted
  with assms show ?thesis
    by (simp add: worker_step_def)
next
  case Dead
  with assms show ?thesis
    by (simp add: worker_step_def)
next
  case Waiting
  show ?thesis
  proof (cases "queue s")
    case Nil
    with Waiting assms show ?thesis
      by (simp add: worker_step_def)
  next
    case (Cons job rest)
    obtain f c where job: "job = (f, c)"
      by (cases job)
    from fifo_inv_dequeue [OF assms Waiting Cons [unfolded job]] Waiting Cons job
    show ?thesis
      by (simp add: worker_step_def)
  qed
next
  case (Executing f c attempts last_err)
  show ?thesis
  proof (cases attempts)
    case Nil
    from fifo_inv_resolve [OF assms Executing, of s "[]"] Executing Nil
    show ?thesis
      by (simp add: worker_step_def)
  next
    case (Cons a rest)
    obtain it p' where call: "attempt_call g c a (provider_state s) = (it, p')"
      by (cases "attempt_call g c a (provider_state s)")
    show ?thesis
    proof (cases it)
      case (Return t)
      from fifo_inv_resolve [OF assms Executing,
          of "s\<lparr>provider_state := p', trace := trace s @ [Invoked f a]\<rparr>" "[Invoked f a]" a]
        Executing Cons call Return
      show ?thesis
        by (simp add: worker_step_def)
    next
      case (Raise e)
      from fifo_inv_resolve [OF assms Executing,
          of "s\<lparr>provider_state := p', trace := trace s @ [Invoked f a]\<rparr>" "[Invoked f a]" a]
        Executing Cons call Raise
      show ?thesis
        by (simp add: worker_step_def)
    next
      case (Continue e delay)
      from fifo_inv_continue [OF assms Executing] Executing Cons call Continue
      show ?thesis
        by (simp add: worker_step_def)
    qed
  qed
qed

lemma fifo_inv_run:
  "fifo_inv s \<Longrightarrow> fifo_inv (run g s actions)"
proof (induction actions arbitrary: s)
  case Nil
  then show ?case by (simp add: run_def)
next
  case (Cons action actions)
  have "fifo_inv (step g s action)"
    using Cons.prems
    by (cases action) (simp_all add: fifo_inv_enqueue fifo_inv_worker_step fifo_inv_cancel)
  from Cons.IH [OF this] show ?case
    by (simp add: run_def)
qed

text \<open>A future is only cancelled by its caller.\<close>

lemma Abandoned_worker_step:
  "Abandoned e \<in> set (trace (worker_step g s)) \<Longrightarrow> Abandoned e \<in> set (trace s)"
  by (auto simp: worker_step_def resolve_def
      split: worker.splits list.splits prod.splits iteration.splits if_splits)

lemma Abandoned_step:
  "Abandoned e \<in> set (trace (step g s action)) \<Longrightarrow>
   Abandoned e \<in> set (trace s) \<or> action = Cancel e"
proof (cases action)
  case (Submit c)
  assume "Abandoned e \<in> set (trace (step g s action))"
  with Submit show ?thesis
    by (simp add: enqueue_def Let_def)
next
  case Tick
  assume "Abandoned e \<in> set (trace (step g s action))"
  with Tick show ?thesis
    by (simp add: Abandoned_worker_step)
next
  case (Cancel f)
  assume "Abandoned e \<in> set (trace (step g s action))"
  with Cancel show ?thesis
    by (auto simp: cancel_def split: if_splits)
qed

lemma Abandoned_run:
  "Abandoned e \<in> set (trace (run g s actions)) \<Longrightarrow>
   Abandoned e \<in> set (trace s) \<or> Cancel e \<in> set actions"
proof (induction actions arbitrary: s)
  case Nil
  then show ?case by (simp add: run_def)
next
  case (Cons action actions)
  from Cons.prems have "Abandoned e \<in> set (trace (run g (step g s action) actions))"
    by (simp add: run_def)
  from Cons.IH [OF this] Abandoned_step [of e g s action] show ?case
    by auto
qed


subsection \<open>Claim C1\<close>

text \<open>
  C1 as stated fails: a job whose caller was cancelled never reaches a terminal state, and
  the next job is executed all the same. The first job is taken by the worker, its caller
  is cancelled, the provider answers, and the worker ends on the cancelled future; the
  second submission starts a new worker, which calls the provider for the second job while
  the first job was never resolved.
\<close>

theorem cancelled_job_never_resolved_counterexample:
  "trace (run (scripted [] (Returns ''ok'')) (init 0)
      [Submit [], Tick, Cancel 0, Tick, Submit [], Tick, Tick]) =
     [Submitted 0, Dequeued 0, Abandoned 0, Invoked 0 0, Crashed 0,
      Submitted 1, Dequeued 1, Invoked 1 0, Resolved 1 (Inr ''ok'')]
   \<and> futures (run (scripted [] (Returns ''ok'')) (init 0)
      [Submit [], Tick, Cancel 0, Tick, Submit [], Tick, Tick]) =
     [Cancelled, Done (Inr ''ok'')]
   \<and> \<not> (\<forall>n f a e.
          n < length (trace (run (scripted [] (Returns ''ok'')) (init 0)
                [Submit [], Tick, Cancel 0, Tick, Submit [], Tick, Tick]))
          \<and> trace (run (scripted [] (Returns ''ok'')) (init 0)
                [Submit [], Tick, Cancel 0, Tick, Submit [], Tick, Tick]) ! n = Invoked f a
          \<and> e < f \<longrightarrow>
          (\<exists>m < n. \<exists>r. trace (run (scripted [] (Returns ''ok'')) (init 0)
                [Submit [], Tick, Cancel 0, Tick, Submit [], Tick, Tick]) ! m = Resolved e r))"
proof -
  define T where "T = trace (run (scripted [] (Returns ''ok'')) (init 0)
      [Submit [], Tick, Cancel 0, Tick, Submit [], Tick, Tick])"
  have tr: "T =
     [Submitted 0, Dequeued 0, Abandoned 0, Invoked 0 0, Crashed 0,
      Submitted 1, Dequeued 1, Invoked 1 0, Resolved 1 (Inr ''ok'')]"
    unfolding T_def by code_simp
  have fut: "futures (run (scripted [] (Returns ''ok'')) (init 0)
      [Submit [], Tick, Cancel 0, Tick, Submit [], Tick, Tick]) =
     [Cancelled, Done (Inr ''ok'')]"
    by code_simp
  have never: "Resolved 0 r \<notin> set (take 7 T)" for r
    by (simp add: tr)
  have "\<not> (\<forall>n f a e. n < length T \<and> T ! n = Invoked f a \<and> e < f \<longrightarrow>
          (\<exists>m < n. \<exists>r. T ! m = Resolved e r))"
  proof
    assume claim: "\<forall>n f a e. n < length T \<and> T ! n = Invoked f a \<and> e < f \<longrightarrow>
          (\<exists>m < n. \<exists>r. T ! m = Resolved e r)"
    have "7 < length T \<and> T ! 7 = Invoked 1 0 \<and> (0::nat) < 1"
      by (simp add: tr)
    with claim obtain m r where m: "m < 7" and at: "T ! m = Resolved 0 r"
      by blast
    from m have "m < length (take 7 T)"
      by (simp add: tr)
    then have "take 7 T ! m \<in> set (take 7 T)"
      by (rule nth_mem)
    with m at have "Resolved 0 r \<in> set (take 7 T)"
      by simp
    with never show False
      by blast
  qed
  with tr fut show ?thesis
    unfolding T_def by blast
qed

text \<open>
  C1, amended. Start with no queue and no worker, and let callers submit jobs, callers be
  cancelled and the worker take its steps in any interleaving, against any provider. Jobs
  are numbered in the order of their submission. The worker takes them from the queue in
  this order, and whenever it takes a job or calls the provider for it, the jobs on which
  its work has ended are exactly the jobs submitted before, ended in their order: no job
  is taken or sent to the provider before, for every earlier job, all provider calls and
  retries are over and its future was either resolved with the result or the exception,
  or found cancelled by its caller; and no job is sent to the provider after its own end.
  A future is found cancelled only when its caller was cancelled. In a run in which no
  caller is cancelled, every earlier job has been resolved, as the claim says. A resolved
  job's future holds the result or exception it was resolved with.
\<close>

theorem jobs_finish_in_submission_order:
  "let s = run generate_content (init p) actions; tr = trace s
   in submitted tr = [0..<length (futures s)]
    \<and> (\<exists>d. dequeued tr = [0..<d])
    \<and> (\<forall>n f. n < length tr \<and> (tr ! n = Dequeued f \<or> (\<exists>a. tr ! n = Invoked f a)) \<longrightarrow>
          finished (take n tr) = [0..<f])
    \<and> (\<forall>n f a e. n < length tr \<and> tr ! n = Invoked f a \<and> e < f \<longrightarrow>
          (\<exists>m < n. (\<exists>r. tr ! m = Resolved e r) \<or> tr ! m = Crashed e))
    \<and> (\<forall>n f e. n < length tr \<and> tr ! n = Dequeued f \<and> e < f \<longrightarrow>
          (\<exists>m < n. (\<exists>r. tr ! m = Resolved e r) \<or> tr ! m = Crashed e))
    \<and> (\<forall>e. Crashed e \<in> set tr \<longrightarrow> Abandoned e \<in> set tr \<and> Cancel e \<in> set actions)
    \<and> ((\<forall>e. Cancel e \<notin> set actions) \<longrightarrow>
          (\<forall>n f a e. n < length tr \<and> tr ! n = Invoked f a \<and> e < f \<longrightarrow>
             (\<exists>m < n. \<exists>r. tr ! m = Resolved e r)))
    \<and> (\<forall>f r. Resolved f r \<in> set tr \<longrightarrow> f < length (futures s) \<and> futures s ! f = Done r)"
proof -
  define s where "s = run generate_content (init p) actions"
  define tr where "tr = trace s"
  have "fifo_inv s"
    unfolding s_def by (rule fifo_inv_run) (rule fifo_inv_init)
  note inv = fifo_invD [OF this, folded tr_def]
  have begun: "finished (take n tr) = [0..<f]" if "n < length tr" and "begins (tr ! n) = Some f" for n f
    using inv(6) that by (simp add: in_order_def)
  have earlier: "\<exists>m < n. (\<exists>r. tr ! m = Resolved e r) \<or> tr ! m = Crashed e"
    if "n < length tr" and "begins (tr ! n) = Some f" and "e < f" for n f e
  proof -
    from begun [OF that(1,2)] that(3) have "e \<in> set (finished (take n tr))"
      by simp
    then have "(\<exists>r. Resolved e r \<in> set (take n tr)) \<or> Crashed e \<in> set (take n tr)"
      by (rule in_finished_cases)
    then obtain ev where ev: "ev \<in> set (take n tr)" and kind: "(\<exists>r. ev = Resolved e r) \<or> ev = Crashed e"
      by blast
    from ev obtain m where "m < length (take n tr)" and "take n tr ! m = ev"
      by (auto simp: in_set_conv_nth)
    then have "m < n \<and> tr ! m = ev"
      by simp
    with kind show ?thesis
      by blast
  qed
  have origin: "Abandoned e \<in> set tr \<and> Cancel e \<in> set actions" if "Crashed e \<in> set tr" for e
  proof -
    from inv(10) [OF that] have left: "Abandoned e \<in> set tr" .
    with Abandoned_run [of e generate_content "init p" actions]
    have "Cancel e \<in> set actions"
      by (simp add: tr_def s_def init_def)
    with left show ?thesis
      by simp
  qed
  have c1: "submitted tr = [0..<length (futures s)]"
    by (rule inv(1))
  have c2: "\<exists>d. dequeued tr = [0..<d]"
    using inv(3) by blast
  have c3: "\<forall>n f. n < length tr \<and> (tr ! n = Dequeued f \<or> (\<exists>a. tr ! n = Invoked f a)) \<longrightarrow>
          finished (take n tr) = [0..<f]"
    using begun by auto
  have c4: "\<forall>n f a e. n < length tr \<and> tr ! n = Invoked f a \<and> e < f \<longrightarrow>
          (\<exists>m < n. (\<exists>r. tr ! m = Resolved e r) \<or> tr ! m = Crashed e)"
    using earlier by auto
  have c5: "\<forall>n f e. n < length tr \<and> tr ! n = Dequeued f \<and> e < f \<longrightarrow>
          (\<exists>m < n. (\<exists>r. tr ! m = Resolved e r) \<or> tr ! m = Crashed e)"
    using earlier by auto
  have c6: "\<forall>e. Crashed e \<in> set tr \<longrightarrow> Abandoned e \<in> set tr \<and> Cancel e \<in> set actions"
    using origin by blast
  have c7: "(\<forall>e. Cancel e \<notin> set actions) \<longrightarrow>
          (\<forall>n f a e. n < length tr \<and> tr ! n = Invoked f a \<and> e < f \<longrightarrow>
             (\<exists>m < n. \<exists>r. tr ! m = Resolved e r))"
  proof (intro impI allI)
    fix n f a e
    assume none: "\<forall>e. Cancel e \<notin> set actions"
      and at: "n < length tr \<and> tr ! n = Invoked f a \<and> e < f"
    with c4 obtain m where m: "m < n" and kind: "(\<exists>r. tr ! m = Resolved e r) \<or> tr ! m = Crashed e"
      by blast
    have "tr ! m \<noteq> Crashed e"
    proof
      assume crashed: "tr ! m = Crashed e"
      from m at have "m < length tr"
        by simp
      then have "tr ! m \<in> set tr"
        by (rule nth_mem)
      with crashed origin [of e] none show False
        by simp
    qed
    with kind m show "\<exists>m < n. \<exists>r. tr ! m = Resolved e r"
      by blast
  qed
  have c8: "\<forall>f r. Resolved f r \<in> set tr \<longrightarrow> f < length (futures s) \<and> futures s ! f = Done r"
    using inv(7) by blast
  from c1 c2 c3 c4 c5 c6 c7 c8 show ?thesis
    unfolding Let_def s_def [symmetric] tr_def [symmetric] by blast
qed

theorem jobs_finish_in_submission_order_witness:
  "trace (run (scripted [Raises too_many_requests] (Returns ''ok'')) (init 0)
      [Submit [], Tick, Tick, Submit [], Tick, Tick, Tick]) =
     [Submitted 0, Dequeued 0, Invoked 0 0, Sleeping 0 2, Submitted 1, Invoked 0 1,
      Resolved 0 (Inr ''ok''), Dequeued 1, Invoked 1 0, Resolved 1 (Inr ''ok'')]
   \<and> (\<forall>e. Cancel e \<notin> set [Submit [], Tick, Tick, Submit [], Tick, Tick, Tick])
   \<and> (0::nat) < 1
   \<and> (\<exists>m < 8. \<exists>r.
        trace (run (scripted [Raises too_many_requests] (Returns ''ok'')) (init 0)
          [Submit [], Tick, Tick, Submit [], Tick, Tick, Tick]) ! m = Resolved 0 r)
   \<and> finished (take 8
        (trace (run (scripted [Raises too_many_requests] (Returns ''ok'')) (init 0)
          [Submit [], Tick, Tick, Submit [], Tick, Tick, Tick]))) = [0..<1]
   \<and> futures (run (scripted [Raises too_many_requests] (Returns ''ok'')) (init 0)
        [Submit [], Tick, Tick, Submit [], Tick, Tick, Tick]) ! 1 = Done (Inr ''ok'')
   \<and> trace (run (scripted [] (Returns ''ok'')) (init 0)
      [Submit [], Tick, Cancel 0, Tick, Submit [], Tick, Tick]) =
     [Submitted 0, Dequeued 0, Abandoned 0, Invoked 0 0, Crashed 0,
      Submitted 1, Dequeued 1, Invoked 1 0, Resolved 1 (Inr ''ok'')]
   \<and> (\<exists>m < 7.
        (\<exists>r. trace (run (scripted [] (Returns ''ok'')) (init 0)
          [Submit [], Tick, Cancel 0, Tick, Submit [], Tick, Tick]) ! m = Resolved 0 r)
        \<or> trace (run (scripted [] (Returns ''ok'')) (init 0)
          [Submit [], Tick, Cancel 0, Tick, Submit [], Tick, Tick]) ! m = Crashed 0)
   \<and> finished (take 7
        (trace (run (scripted [] (Returns ''ok'')) (init 0)
          [Submit [], Tick, Cancel 0, Tick, Submit [], Tick, Tick]))) = [0..<1]
   \<and> Cancel 0 \<in> set [Submit [], Tick, Cancel 0, Tick, Submit [], Tick, Tick]"
proof -
  define s where "s = run (scripted [Raises too_many_requests] (Returns ''ok'')) (init 0)
      [Submit [], Tick, Tick, Submit [], Tick, Tick, Tick]"
  define t where "t = run (scripted [] (Returns ''ok'')) (init 0)
      [Submit [], Tick, Cancel 0, Tick, Submit [], Tick, Tick]"
  have tr: "trace s =
     [Submitted 0, Dequeued 0, Invoked 0 0, Sleeping 0 2, Submitted 1, Invoked 0 1,
      Resolved 0 (Inr ''ok''), Dequeued 1, Invoked 1 0, Resolved 1 (Inr ''ok'')]"
    unfolding s_def by code_simp
  have tt: "trace t =
     [Submitted 0, Dequeued 0, Abandoned 0, Invoked 0 0, Crashed 0,
      Submitted 1, Dequeued 1, Invoked 1 0, Resolved 1 (Inr ''ok'')]"
    unfolding t_def by code_simp
  note facts = jobs_finish_in_submission_order
    [of "scripted [Raises too_many_requests] (Returns ''ok'')" 0
        "[Submit [], Tick, Tick, Submit [], Tick, Tick, Tick]",
     unfolded Let_def, folded s_def]
  note facts' = jobs_finish_in_submission_order
    [of "scripted [] (Returns ''ok'')" 0
        "[Submit [], Tick, Cancel 0, Tick, Submit [], Tick, Tick]",
     unfolded Let_def, folded t_def]
  have none: "\<forall>e. Cancel e \<notin> set [Submit [], Tick, Tick, Submit [], Tick, Tick, Tick]"
    by simp
  have lt: "(0::nat) < 1"
    by simp
  have at: "8 < length (trace s) \<and> trace s ! 8 = Invoked 1 0"
    by (simp add: tr)
  from facts none have "\<forall>n f a e. n < length (trace s) \<and> trace s ! n = Invoked f a \<and> e < f \<longrightarrow>
          (\<exists>m < n. \<exists>r. trace s ! m = Resolved e r)"
    by blast
  with at lt have before: "\<exists>m < 8. \<exists>r. trace s ! m = Resolved 0 r"
    by blast
  from facts have "\<forall>n f. n < length (trace s)
        \<and> (trace s ! n = Dequeued f \<or> (\<exists>a. trace s ! n = Invoked f a)) \<longrightarrow>
          finished (take n (trace s)) = [0..<f]"
    by blast
  with at have exactly: "finished (take 8 (trace s)) = [0..<1]"
    by blast
  have "Resolved 1 (Inr ''ok'') \<in> set (trace s)"
    by (simp add: tr)
  with facts have fut: "futures s ! 1 = Done (Inr ''ok'')"
    by blast
  have at': "7 < length (trace t) \<and> trace t ! 7 = Invoked 1 0"
    by (simp add: tt)
  from facts' have "\<forall>n f a e. n < length (trace t) \<and> trace t ! n = Invoked f a \<and> e < f \<longrightarrow>
          (\<exists>m < n. (\<exists>r. trace t ! m = Resolved e r) \<or> trace t ! m = Crashed e)"
    by blast
  with at' lt have before': "\<exists>m < 7. (\<exists>r. trace t ! m = Resolved 0 r) \<or> trace t ! m = Crashed 0"
    by blast
  from facts' have "\<forall>n f. n < length (trace t)
        \<and> (trace t ! n = Dequeued f \<or> (\<exists>a. trace t ! n = Invoked f a)) \<longrightarrow>
          finished (take n (trace t)) = [0..<f]"
    by blast
  with at' have exactly': "finished (take 7 (trace t)) = [0..<1]"
    by blast
  have "Crashed 0 \<in> set (trace t)"
    by (simp add: tt)
  with facts' have cancelled: "Cancel 0 \<in> set [Submit [], Tick, Cancel 0, Tick, Submit [], Tick, Tick]"
    by blast
  from tr none lt before exactly fut tt before' exactly' cancelled show ?thesis
    unfolding s_def t_def by blast
qed

end
